theory Spec2Isabelle
  imports Main "HOL-Library.Word"
begin

unbundle bit_operations_syntax

section \<open>Constants and types of ps2spi.c\<close>

text \<open>
  The firmware runs on an ATtiny85: \<open>uint8_t\<close> is an 8-bit word. The C type \<open>int\<close>
  (16 bits on AVR) is modelled by \<open>int\<close>: every \<open>int\<close> variable of the program is a
  queue index, a queue count, a bit counter, a parity sum, a byte value or a result
  code. Each increment is guarded by a comparison or bounded by the length of a frame,
  and in the states that satisfy the queue relations below all of them stay between
  \<open>-16\<close> and \<open>255\<close>, so no 16-bit operation wraps.
\<close>

type_synonym uint8_t = "8 word"

abbreviation (input) PS2_CLOCK :: uint8_t where "PS2_CLOCK \<equiv> 0x08"
abbreviation (input) PS2_DATA :: uint8_t where "PS2_DATA \<equiv> 0x10"
abbreviation (input) USI_CNTR_OVRF :: uint8_t where "USI_CNTR_OVRF \<equiv> 0x40"
abbreviation (input) USI_COUNTER :: uint8_t where "USI_COUNTER \<equiv> 0x0F"
abbreviation (input) PS2_BUFF_SIZE :: int where "PS2_BUFF_SIZE \<equiv> 32"
abbreviation (input) KEY_BUFF_SIZE :: int where "KEY_BUFF_SIZE \<equiv> 32"
abbreviation (input) PS2_HK_LEDS :: uint8_t where "PS2_HK_LEDS \<equiv> 0xED"
abbreviation (input) PS2_HK_ALTCODE :: uint8_t where "PS2_HK_ALTCODE \<equiv> 0xF0"
abbreviation (input) PS2_KH_ACK :: int where "PS2_KH_ACK \<equiv> 0xFA"
abbreviation (input) PS2_KH_RESEND :: int where "PS2_KH_RESEND \<equiv> 0xFE"
abbreviation (input) PS2_LAST_CODE :: int where "PS2_LAST_CODE \<equiv> 0x50"

datatype ps2_state_t =
    PS2_IDLE
  | PS2_DATA_BITS
  | PS2_PARITY
  | PS2_STOP
  | PS2_RX_ERR_START
  | PS2_RX_ERR_OVERRUN
  | PS2_RX_ERR_PARITY
  | PS2_RX_ERR_STOP

text \<open>
  An interrupt request as the firmware sees it. A pin-change interrupt carries the two
  values that the two reads of the volatile register \<open>PINB\<close> in its handler return (the
  clock test and the data sample); a USI overflow carries the byte the host has shifted
  into \<open>USIDR\<close> during the transfer that has just completed.
\<close>

datatype irq = PCINT0 uint8_t uint8_t | USI_OVF uint8_t

text \<open>
  The globals of the program, the hardware registers it writes, and its inputs.
  \<open>pinb_polls\<close> holds the values that the successive reads of \<open>PINB\<close> in the busy-wait
  loops of \<open>ps2_send\<close> return; \<open>irq_pending\<close> holds the interrupts that arrive, in
  order, while the foreground loop spins in \<open>ps2_recv_x\<close>. Delays are not modelled.
\<close>

record avr =
  ps2_scan_codes :: "uint8_t list"
  ps2_buffer_out :: int
  ps2_buffer_in :: int
  ps2_scan_code_count :: int
  ps2_rx_state :: ps2_state_t
  ps2_rx_data_byte :: uint8_t
  ps2_rx_bit_count :: int
  ps2_rx_parity :: int
  key_codes :: "uint8_t list"
  key_code_count :: int
  key_buffer_out :: int
  key_buffer_in :: int
  command_in :: uint8_t
  kbd_lock_keys :: uint8_t
  ddrb :: uint8_t
  portb :: uint8_t
  usidr :: uint8_t
  usisr :: uint8_t
  sreg_i :: bool
  pinb_polls :: "uint8_t list"
  irq_pending :: "irq list"

section \<open>The two ring buffers\<close>

text \<open>
  \<open>ps2_recv\<close> (lines 525-539): pop of the scan-code queue; \<open>-1\<close> when it is empty.
  The array accesses of the program are in range exactly when the indices satisfy
  the invariants \<open>ps2_queue_ok\<close> and \<open>key_queue_ok\<close> below (C leaves an access out of
  range undefined), which every operation preserves.
\<close>

definition ps2_recv :: "avr \<Rightarrow> int \<times> avr" where
  "ps2_recv s =
     (if ps2_scan_code_count s > 0 then
        (uint (ps2_scan_codes s ! nat (ps2_buffer_out s)),
         s\<lparr>ps2_scan_code_count := ps2_scan_code_count s - 1,
           ps2_buffer_out :=
             (if ps2_buffer_out s + 1 = PS2_BUFF_SIZE then 0 else ps2_buffer_out s + 1)\<rparr>)
      else (-1, s))"

text \<open>\<open>read_key\<close> (lines 675-689): pop of the key-code queue; \<open>-1\<close> when it is empty.\<close>

definition read_key :: "avr \<Rightarrow> int \<times> avr" where
  "read_key s =
     (if key_code_count s > 0 then
        (uint (key_codes s ! nat (key_buffer_out s)),
         s\<lparr>key_code_count := key_code_count s - 1,
           key_buffer_out :=
             (if key_buffer_out s + 1 = KEY_BUFF_SIZE then 0 else key_buffer_out s + 1)\<rparr>)
      else (-1, s))"

text \<open>\<open>write_key\<close> (lines 700-715): push onto the key-code queue; \<open>-1\<close> when it is full.\<close>

definition write_key :: "uint8_t \<Rightarrow> avr \<Rightarrow> int \<times> avr" where
  "write_key key_code s =
     (if key_code_count s < KEY_BUFF_SIZE then
        (uint key_code,
         s\<lparr>key_codes := (key_codes s)[nat (key_buffer_in s) := key_code],
           key_code_count := key_code_count s + 1,
           key_buffer_in :=
             (if key_buffer_in s + 1 = KEY_BUFF_SIZE then 0 else key_buffer_in s + 1)\<rparr>)
      else (-1, s))"

section \<open>ScanReceiver: the pin-change interrupt\<close>

text \<open>
  \<open>ISR(PCINT0_vect)\<close> (lines 725-800). \<open>pinb_clk\<close> is the value of \<open>PINB\<close> read by the
  clock test of line 729, \<open>pinb_dat\<close> the value read by the data sample of line 731.
  The shift of line 762 is done in \<open>int\<close> and stored into a \<open>uint8_t\<close>; for a bit count
  from 0 to 14 that is the 8-bit \<open>push_bit\<close>.
\<close>

definition PCINT0_vect :: "uint8_t \<Rightarrow> uint8_t \<Rightarrow> avr \<Rightarrow> avr" where
  "PCINT0_vect pinb_clk pinb_dat s =
     (if pinb_clk AND PS2_CLOCK = 0 then
        (let ps2_data_bit = drop_bit 4 (pinb_dat AND PS2_DATA) in
         case ps2_rx_state s of
           PS2_RX_ERR_START \<Rightarrow> s
         | PS2_RX_ERR_OVERRUN \<Rightarrow> s
         | PS2_RX_ERR_PARITY \<Rightarrow> s
         | PS2_RX_ERR_STOP \<Rightarrow> s
         | PS2_IDLE \<Rightarrow>
             (if ps2_data_bit = 0 then
                s\<lparr>ps2_rx_data_byte := 0, ps2_rx_bit_count := 0, ps2_rx_parity := 0,
                  ps2_rx_state := PS2_DATA_BITS\<rparr>
              else s\<lparr>ps2_rx_state := PS2_RX_ERR_START\<rparr>)
         | PS2_DATA_BITS \<Rightarrow>
             s\<lparr>ps2_rx_parity := ps2_rx_parity s + uint ps2_data_bit,
               ps2_rx_data_byte :=
                 ps2_rx_data_byte s + push_bit (nat (ps2_rx_bit_count s)) ps2_data_bit,
               ps2_rx_bit_count := ps2_rx_bit_count s + 1,
               ps2_rx_state :=
                 (if ps2_rx_bit_count s + 1 = 8 then PS2_PARITY else PS2_DATA_BITS)\<rparr>
         | PS2_PARITY \<Rightarrow>
             (if (ps2_rx_parity s + uint ps2_data_bit) AND 1 \<noteq> 0 then
                s\<lparr>ps2_rx_state := PS2_STOP\<rparr>
              else s\<lparr>ps2_rx_state := PS2_RX_ERR_PARITY\<rparr>)
         | PS2_STOP \<Rightarrow>
             (if ps2_data_bit = 1 then
                (if ps2_scan_code_count s < PS2_BUFF_SIZE then
                   s\<lparr>ps2_scan_codes :=
                       (ps2_scan_codes s)[nat (ps2_buffer_in s) := ps2_rx_data_byte s],
                     ps2_scan_code_count := ps2_scan_code_count s + 1,
                     ps2_buffer_in :=
                       (if ps2_buffer_in s + 1 = PS2_BUFF_SIZE then 0
                        else ps2_buffer_in s + 1),
                     ps2_rx_state := PS2_IDLE\<rparr>
                 else s\<lparr>ps2_rx_state := PS2_RX_ERR_OVERRUN\<rparr>)
              else s\<lparr>ps2_rx_state := PS2_RX_ERR_STOP\<rparr>))
      else s)"

text \<open>A run of the handler over successive pin-change interrupts.\<close>

primrec pcint_run :: "(uint8_t \<times> uint8_t) list \<Rightarrow> avr \<Rightarrow> avr" where
  "pcint_run [] s = s"
| "pcint_run (e # es) s = pcint_run es (PCINT0_vect (fst e) (snd e) s)"

section \<open>HostResponder: the USI overflow interrupt\<close>

text \<open>
  \<open>ISR(USI_OVF_vect)\<close> (lines 807-823): latch the received byte, pop one key code and
  stage it (or 0) in \<open>USIDR\<close>, re-arm the counter.
\<close>

definition USI_OVF_vect :: "avr \<Rightarrow> avr" where
  "USI_OVF_vect s =
     (let s1 = s\<lparr>command_in := usidr s\<rparr>;
          (data, s2) = read_key s1;
          s3 = (if data = -1 then s2\<lparr>usidr := 0\<rparr> else s2\<lparr>usidr := word_of_int data\<rparr>);
          s4 = s3\<lparr>usisr := usisr s3 AND NOT USI_COUNTER\<rparr>
      in s4\<lparr>usisr := usisr s4 OR USI_CNTR_OVRF\<rparr>)"

text \<open>
  One exchange with the host, as the handler's comment describes the hardware: the eight
  bits staged in \<open>USIDR\<close> go out to the host while the host's byte is shifted in, then
  the counter overflows and the handler runs. The result is the byte the host receives.
\<close>

definition usi_transfer :: "uint8_t \<Rightarrow> avr \<Rightarrow> uint8_t \<times> avr" where
  "usi_transfer host_byte s = (usidr s, USI_OVF_vect (s\<lparr>usidr := host_byte\<rparr>))"

primrec usi_transfers :: "uint8_t list \<Rightarrow> avr \<Rightarrow> uint8_t list \<times> avr" where
  "usi_transfers [] s = ([], s)"
| "usi_transfers (h # hs) s =
     (case usi_transfer h s of (b, s1) \<Rightarrow>
        case usi_transfers hs s1 of (bs, s2) \<Rightarrow> (b # bs, s2))"

text \<open>The bytes staged in \<open>USIDR\<close> by successive exchanges.\<close>

primrec usi_staged :: "uint8_t list \<Rightarrow> avr \<Rightarrow> uint8_t list" where
  "usi_staged [] s = []"
| "usi_staged (h # hs) s =
     usidr (snd (usi_transfer h s)) # usi_staged hs (snd (usi_transfer h s))"

text \<open>Successive calls of \<open>write_key\<close>, the results dropped as the main loop drops them.\<close>

primrec write_keys :: "uint8_t list \<Rightarrow> avr \<Rightarrow> avr" where
  "write_keys [] s = s"
| "write_keys (k # ks) s = write_keys ks (snd (write_key k s))"

section \<open>Blocking receive\<close>

text \<open>The handler that serves an interrupt request.\<close>

fun isr :: "irq \<Rightarrow> avr \<Rightarrow> avr" where
  "isr (PCINT0 pinb_clk pinb_dat) s = PCINT0_vect pinb_clk pinb_dat s"
| "isr (USI_OVF host_byte) s = snd (usi_transfer host_byte s)"

lemma irq_pending_PCINT0_vect: "irq_pending (PCINT0_vect c d s) = irq_pending s"
  by (simp add: PCINT0_vect_def Let_def split: ps2_state_t.split)

lemma irq_pending_USI_OVF_vect: "irq_pending (USI_OVF_vect s) = irq_pending s"
  by (simp add: USI_OVF_vect_def read_key_def Let_def)

lemma irq_pending_isr: "irq_pending (isr e s) = irq_pending s"
  by (cases e) (simp_all add: irq_pending_PCINT0_vect irq_pending_USI_OVF_vect usi_transfer_def)

lemma irq_pending_ps2_recv: "irq_pending (snd (ps2_recv s)) = irq_pending s"
  by (simp add: ps2_recv_def)

text \<open>
  \<open>ps2_recv_x\<close> (lines 504-514): \<open>do result = ps2_recv(); while (result == -1)\<close>.
  The loop makes progress only through the interrupts that arrive while it spins: each
  turn that finds the queue empty lets the next pending interrupt run, if interrupts
  are enabled. With none left, or with interrupts disabled, the loop never ends: \<open>None\<close>.
\<close>

function ps2_recv_x :: "avr \<Rightarrow> (int \<times> avr) option" where
  "ps2_recv_x s =
     (case ps2_recv s of (result, s1) \<Rightarrow>
        if result = - 1 then
          (case irq_pending s1 of
             [] \<Rightarrow> None
           | e # es \<Rightarrow>
               if sreg_i s1 then ps2_recv_x (isr e (s1\<lparr>irq_pending := es\<rparr>)) else None)
        else Some (result, s1))"
  by pat_completeness auto
termination
proof (relation "measure (\<lambda>s. length (irq_pending s))")
  show "wf (measure (\<lambda>s. length (irq_pending s)))" by simp
next
  fix s x s1 e es
  assume "(x, s1) = ps2_recv s" and "irq_pending s1 = e # es"
  then have "irq_pending s = e # es"
    using irq_pending_ps2_recv [of s] by (metis snd_conv)
  then show "(isr e (s1\<lparr>irq_pending := es\<rparr>), s) \<in> measure (\<lambda>s. length (irq_pending s))"
    by (simp add: irq_pending_isr)
qed

declare ps2_recv_x.simps [simp del]

section \<open>ScanTransmitter\<close>

text \<open>
  The busy-wait loops \<open>do {} while ( (PINB & PS2_CLOCK) )\<close> and
  \<open>do {} while ( !(PINB & PS2_CLOCK) )\<close>: each turn reads \<open>PINB\<close> once; the result is
  what is left of the reads, or \<open>None\<close> when the clock never reaches the awaited level.
\<close>

fun wait_while_clock_high :: "uint8_t list \<Rightarrow> uint8_t list option" where
  "wait_while_clock_high [] = None"
| "wait_while_clock_high (pinb # rest) =
     (if pinb AND PS2_CLOCK \<noteq> 0 then wait_while_clock_high rest else Some rest)"

fun wait_while_clock_low :: "uint8_t list \<Rightarrow> uint8_t list option" where
  "wait_while_clock_low [] = None"
| "wait_while_clock_low (pinb # rest) =
     (if pinb AND PS2_CLOCK = 0 then wait_while_clock_low rest else Some rest)"

text \<open>The loop of lines 444-472: eight data bits, the parity bit and the stop bit.\<close>

function ps2_send_loop :: "uint8_t \<Rightarrow> int \<Rightarrow> int \<Rightarrow> avr \<Rightarrow> avr option" where
  "ps2_send_loop byte ps2_tx_parity ps2_tx_bit_count s =
     (if ps2_tx_bit_count < 10 then
        (let ps2_data_bit =
               (if ps2_tx_bit_count < 8 then byte AND 0x01
                else if ps2_tx_bit_count = 8 then word_of_int ps2_tx_parity AND 0x01
                else 1);
             parity1 =
               (if ps2_tx_bit_count < 8 then ps2_tx_parity + uint (byte AND 0x01)
                else ps2_tx_parity)
         in case wait_while_clock_high (pinb_polls s) of
              None \<Rightarrow> None
            | Some polls1 \<Rightarrow>
                (case wait_while_clock_low polls1 of
                   None \<Rightarrow> None
                 | Some polls2 \<Rightarrow>
                     ps2_send_loop (drop_bit 1 byte) parity1 (ps2_tx_bit_count + 1)
                       (s\<lparr>portb :=
                            (if ps2_data_bit \<noteq> 0 then portb s OR PS2_DATA
                             else portb s AND NOT PS2_DATA),
                          pinb_polls := polls2\<rparr>)))
      else Some s)"
  by pat_completeness auto
termination
  by (relation "measure (\<lambda>(byte, parity, n, s). nat (10 - n))") auto

declare ps2_send_loop.simps [simp del]

text \<open>
  \<open>ps2_send\<close> (lines 417-493). \<open>cli\<close> and \<open>sei\<close> clear and set the interrupt flag. The
  acknowledge is sampled by a read of \<open>PINB\<close> of its own (line 480), after the read that
  ended the wait for the clock to go low.
\<close>

definition ps2_send :: "uint8_t \<Rightarrow> avr \<Rightarrow> (int \<times> avr) option" where
  "ps2_send byte s =
     (let s1 = s\<lparr>sreg_i := False, ps2_rx_state := PS2_IDLE, ps2_rx_data_byte := 0,
                 ps2_rx_bit_count := 0, ps2_rx_parity := 0\<rparr>;
          s2 = s1\<lparr>ddrb := ddrb s1 OR PS2_CLOCK\<rparr>;
          s3 = s2\<lparr>portb := portb s2 AND NOT PS2_CLOCK\<rparr>;
          s4 = s3\<lparr>ddrb := ddrb s3 OR PS2_DATA\<rparr>;
          s5 = s4\<lparr>portb := portb s4 AND NOT PS2_DATA\<rparr>;
          s6 = s5\<lparr>ddrb := ddrb s5 AND NOT PS2_CLOCK\<rparr>;
          s7 = s6\<lparr>portb := portb s6 OR PS2_CLOCK\<rparr>
      in case ps2_send_loop byte 1 0 s7 of
           None \<Rightarrow> None
         | Some s8 \<Rightarrow>
             (let s9 = s8\<lparr>ddrb := ddrb s8 AND NOT PS2_DATA\<rparr>;
                  s10 = s9\<lparr>portb := portb s9 OR PS2_DATA\<rparr>
              in case wait_while_clock_high (pinb_polls s10) of
                   None \<Rightarrow> None
                 | Some [] \<Rightarrow> None
                 | Some (pinb # polls1) \<Rightarrow>
                     (let result = -1 * uint (pinb AND PS2_DATA)
                      in case wait_while_clock_low polls1 of
                           None \<Rightarrow> None
                         | Some polls2 \<Rightarrow>
                             Some (result, s10\<lparr>pinb_polls := polls2, sreg_i := True\<rparr>))))"

text \<open>
  What the keyboard does to let the loop of \<open>ps2_send\<close> pass \<open>n\<close> bits: \<open>n\<close> times
  the clock is read low, after any number of reads, and then high again. The result is
  what is left of the reads.
\<close>

fun clock_cycles :: "nat \<Rightarrow> uint8_t list \<Rightarrow> uint8_t list option" where
  "clock_cycles 0 polls = Some polls"
| "clock_cycles (Suc n) polls =
     (case wait_while_clock_high polls of
        None \<Rightarrow> None
      | Some polls1 \<Rightarrow>
          (case wait_while_clock_low polls1 of
             None \<Rightarrow> None
           | Some polls2 \<Rightarrow> clock_cycles n polls2))"

section \<open>KeyboardCommands\<close>

text \<open>\<open>kdb_led_ctrl\<close> (lines 588-604).\<close>

definition kdb_led_ctrl :: "uint8_t \<Rightarrow> avr \<Rightarrow> (int \<times> avr) option" where
  "kdb_led_ctrl state s =
     (case ps2_send PS2_HK_LEDS s of
        None \<Rightarrow> None
      | Some (_, s1) \<Rightarrow>
          (case ps2_recv_x s1 of
             None \<Rightarrow> None
           | Some (temp_scan_code, s2) \<Rightarrow>
               if temp_scan_code = PS2_KH_ACK then
                 (case ps2_send (state AND 0x07) s2 of
                    None \<Rightarrow> None
                  | Some (_, s3) \<Rightarrow> ps2_recv_x s3)
               else Some (temp_scan_code, s2)))"

text \<open>\<open>kbd_code_set\<close> (lines 615-632).\<close>

definition kbd_code_set :: "int \<Rightarrow> avr \<Rightarrow> (int \<times> avr) option" where
  "kbd_code_set code_set s =
     (if code_set < 1 \<or> code_set > 3 then Some (PS2_KH_RESEND, s)
      else
        case ps2_send PS2_HK_ALTCODE s of
          None \<Rightarrow> None
        | Some (_, s1) \<Rightarrow>
            (case ps2_recv_x s1 of
               None \<Rightarrow> None
             | Some (temp_scan_code, s2) \<Rightarrow>
                 if temp_scan_code = PS2_KH_ACK then
                   (case ps2_send (word_of_int code_set) s2 of
                      None \<Rightarrow> None
                    | Some (_, s3) \<Rightarrow> ps2_recv_x s3)
                 else Some (temp_scan_code, s2)))"

section \<open>ScanTranslator: the body of the main loop\<close>

text \<open>
  One turn of \<open>while ( 1 )\<close> in \<open>main\<close> (lines 239-344), in the order of the source.
  In the three stages below the result \<open>Some (None, s)\<close> is the statement \<open>continue\<close>,
  \<open>Some (Some c, s)\<close> passes the scan code \<open>c\<close> on, and \<open>None\<close> is a blocking receive
  that never returns.

  Lines 251-268: the Pause/Break lead byte.
\<close>

definition main_pause_break :: "int \<Rightarrow> avr \<Rightarrow> (int option \<times> avr) option" where
  "main_pause_break scan_code s =
     (if scan_code = 0xe1 then
        (case ps2_recv_x s of
           None \<Rightarrow> None
         | Some (scan_code1, s1) \<Rightarrow>
             if scan_code1 = 0x1d then
               (case ps2_recv_x s1 of None \<Rightarrow> None | Some (_, s2) \<Rightarrow> Some (None, s2))
             else if scan_code1 = 0x9d then
               (case ps2_recv_x s1 of None \<Rightarrow> None | Some (_, s2) \<Rightarrow> Some (None, s2))
             else Some (Some scan_code1, s1))
      else Some (Some scan_code, s))"

text \<open>Lines 270-292: the extended-sequence lead byte and the list of pairs to keep.\<close>

definition main_extended :: "int \<Rightarrow> avr \<Rightarrow> (int option \<times> avr) option" where
  "main_extended scan_code s =
     (if scan_code = 0xe0 then
        (case ps2_recv_x s of
           None \<Rightarrow> None
         | Some (scan_code1, s1) \<Rightarrow>
             if scan_code1 = 0x50 \<or> scan_code1 = 0xd0 \<or> scan_code1 = 0x4d \<or>
                scan_code1 = 0xcd \<or> scan_code1 = 0x4b \<or> scan_code1 = 0xcb \<or>
                scan_code1 = 0x48 \<or> scan_code1 = 0xc8
             then Some (Some scan_code1, s1)
             else Some (None, s1))
      else Some (Some scan_code, s))"

text \<open>The case labels of the \<open>switch\<close> of lines 295-315 that end in \<open>continue\<close>.\<close>

definition unwanted_scan_code :: "int \<Rightarrow> bool" where
  "unwanted_scan_code c =
     (c = 15 \<or> c = 27 \<or> c = 29 \<or> c = 41 \<or> c = 40 \<or> c = 43 \<or> c = 55 \<or> c = 56 \<or>
      c = 58 \<or> (69 \<le> c \<and> c \<le> 71) \<or> (73 \<le> c \<and> c \<le> 74) \<or> c = 76 \<or>
      (78 \<le> c \<and> c \<le> 79) \<or> (81 \<le> c \<and> c \<le> 83) \<or> c = 85 \<or> c = 133 \<or> c = 134 \<or>
      (91 \<le> c \<and> c \<le> 93))"

text \<open>
  Lines 294-325: the \<open>switch\<close> with the remapping of code 54, and the range check. The
  result is the code handed to \<open>write_key\<close>, or \<open>None\<close> for \<open>continue\<close>.
\<close>

definition main_filter :: "int \<Rightarrow> int option" where
  "main_filter scan_code =
     (if unwanted_scan_code (scan_code AND 0x7f) then None
      else
        (let scan_code1 =
               (if scan_code AND 0x7f = 54 then (scan_code AND 0x80) + 42 else scan_code)
         in if uint (word_of_int scan_code1 :: uint8_t) AND 0x7f > PS2_LAST_CODE \<or>
               scan_code1 = 0
            then None
            else Some scan_code1))"

text \<open>
  The loop body. \<open>kdb_lock_state\<close> is the local variable of \<open>main\<close> that the body reads
  and writes; the argument of \<open>write_key\<close> is converted to \<open>uint8_t\<close> by the call.
\<close>

definition main_iter :: "uint8_t \<Rightarrow> avr \<Rightarrow> (uint8_t \<times> avr) option" where
  "main_iter kdb_lock_state s =
     (case ps2_recv s of (scan_code, s1) \<Rightarrow>
        if scan_code \<noteq> -1 then
          (case main_pause_break scan_code s1 of
             None \<Rightarrow> None
           | Some (None, s2) \<Rightarrow> Some (kdb_lock_state, s2)
           | Some (Some scan_code2, s2) \<Rightarrow>
               (case main_extended scan_code2 s2 of
                  None \<Rightarrow> None
                | Some (None, s3) \<Rightarrow> Some (kdb_lock_state, s3)
                | Some (Some scan_code3, s3) \<Rightarrow>
                    (case main_filter scan_code3 of
                       None \<Rightarrow> Some (kdb_lock_state, s3)
                     | Some scan_code4 \<Rightarrow>
                         Some (kdb_lock_state, snd (write_key (word_of_int scan_code4) s3)))))
        else if kdb_lock_state \<noteq> kbd_lock_keys s1 then
          (case kdb_led_ctrl (kbd_lock_keys s1) s1 of
             None \<Rightarrow> None
           | Some (_, s2) \<Rightarrow> Some (kbd_lock_keys s2, s2))
        else Some (kdb_lock_state, s1))"

section \<open>Queue contents and queue invariants\<close>

text \<open>
  What a ring buffer of capacity 32 holds, oldest entry first: \<open>n\<close> entries from index
  \<open>out\<close> on, wrapping around; and the relation between its indices and its count that
  the program maintains.
\<close>

definition ring_contents :: "uint8_t list \<Rightarrow> int \<Rightarrow> int \<Rightarrow> uint8_t list" where
  "ring_contents buf out n = map (\<lambda>i. buf ! ((nat out + i) mod 32)) [0..<nat n]"

definition ring_ok :: "uint8_t list \<Rightarrow> int \<Rightarrow> int \<Rightarrow> int \<Rightarrow> bool" where
  "ring_ok buf out inp n =
     (length buf = 32 \<and> 0 \<le> out \<and> out < 32 \<and> 0 \<le> n \<and> n \<le> 32 \<and> inp = (out + n) mod 32)"

definition ps2_contents :: "avr \<Rightarrow> uint8_t list" where
  "ps2_contents s = ring_contents (ps2_scan_codes s) (ps2_buffer_out s) (ps2_scan_code_count s)"

definition ps2_queue_ok :: "avr \<Rightarrow> bool" where
  "ps2_queue_ok s =
     ring_ok (ps2_scan_codes s) (ps2_buffer_out s) (ps2_buffer_in s) (ps2_scan_code_count s)"

definition key_contents :: "avr \<Rightarrow> uint8_t list" where
  "key_contents s = ring_contents (key_codes s) (key_buffer_out s) (key_code_count s)"

definition key_queue_ok :: "avr \<Rightarrow> bool" where
  "key_queue_ok s =
     ring_ok (key_codes s) (key_buffer_out s) (key_buffer_in s) (key_code_count s)"

text \<open>The variables that make up each queue: the array, the two indices and the count.\<close>

definition ps2_queue :: "avr \<Rightarrow> uint8_t list \<times> int \<times> int \<times> int" where
  "ps2_queue s =
     (ps2_scan_codes s, ps2_buffer_out s, ps2_buffer_in s, ps2_scan_code_count s)"

definition key_queue :: "avr \<Rightarrow> uint8_t list \<times> int \<times> int \<times> int" where
  "key_queue s = (key_codes s, key_buffer_out s, key_buffer_in s, key_code_count s)"

text \<open>The latching error states of the receiver.\<close>

definition rx_error :: "ps2_state_t \<Rightarrow> bool" where
  "rx_error st =
     (st = PS2_RX_ERR_START \<or> st = PS2_RX_ERR_OVERRUN \<or> st = PS2_RX_ERR_PARITY \<or>
      st = PS2_RX_ERR_STOP)"

text \<open>The number of 1s among the eight data bits of a frame and its parity bit.\<close>

definition frame_ones :: "uint8_t \<Rightarrow> bool \<Rightarrow> nat" where
  "frame_ones b p = length (filter id (map (bit b) [0..<8] @ [p]))"

section \<open>Concrete states and inputs\<close>

text \<open>
  The state at program start: the initialisers of the globals (lines 184-207), the
  arrays zeroed as C zeroes static storage, interrupts disabled by \<open>reset\<close>, and no
  input yet.
\<close>

definition reset_state :: avr where
  "reset_state =
     \<lparr>ps2_scan_codes = replicate 32 0, ps2_buffer_out = 0, ps2_buffer_in = 0,
      ps2_scan_code_count = 0, ps2_rx_state = PS2_IDLE, ps2_rx_data_byte = 0,
      ps2_rx_bit_count = 0, ps2_rx_parity = 0, key_codes = replicate 32 0,
      key_code_count = 0, key_buffer_out = 0, key_buffer_in = 0, command_in = 0,
      kbd_lock_keys = 0, ddrb = 0, portb = 0, usidr = 0, usisr = 0, sreg_i = False,
      pinb_polls = [], irq_pending = []\<rparr>"

text \<open>A state whose queues are both full while the receiver awaits a stop bit.\<close>

definition full_state :: avr where
  "full_state =
     reset_state\<lparr>ps2_scan_code_count := 32, key_code_count := 32, ps2_rx_state := PS2_STOP\<rparr>"

text \<open>
  The start state with the given raw scan codes already received into the scan-code
  queue and interrupts enabled.
\<close>

definition scan_state :: "uint8_t list \<Rightarrow> avr" where
  "scan_state bs =
     reset_state\<lparr>ps2_scan_codes := bs @ replicate (32 - length bs) 0,
       ps2_buffer_in := int (length bs) mod 32,
       ps2_scan_code_count := int (length bs), sreg_i := True\<rparr>"

text \<open>
  The reads of \<open>PINB\<close> during one transmission with a keyboard that clocks ten bits
  and then the acknowledge; \<open>ack\<close> is the value read at the acknowledge sample (line
  480).
\<close>

definition tx_polls :: "uint8_t \<Rightarrow> uint8_t list" where
  "tx_polls ack =
     concat (replicate 10 [0x18, 0x10, 0x00, 0x18]) @ [0x18, 0x00, ack, 0x00, 0x08]"

text \<open>
  The frame of the byte \<open>0x1C\<close> as eleven falling clock edges (clock sample, data
  sample): start bit 0, data bits 0 0 1 1 1 0 0 0, parity bit 0, stop bit 1; and the
  same frame with the start bit, the parity bit or the stop bit wrong.
\<close>

definition frame_1C :: "(uint8_t \<times> uint8_t) list" where
  "frame_1C =
     [(0x00, 0x00),
      (0x00, 0x00), (0x00, 0x00), (0x10, 0x10), (0x10, 0x10),
      (0x10, 0x14), (0x00, 0x08), (0x00, 0x00), (0x00, 0x00),
      (0x00, 0x00), (0x10, 0x10)]"

definition frame_bad_start :: "(uint8_t \<times> uint8_t) list" where
  "frame_bad_start = (0x00, 0x10) # tl frame_1C"

definition frame_bad_parity :: "(uint8_t \<times> uint8_t) list" where
  "frame_bad_parity = frame_1C[9 := (0x00, 0x10)]"

definition frame_bad_stop :: "(uint8_t \<times> uint8_t) list" where
  "frame_bad_stop = frame_1C[10 := (0x00, 0x00)]"

text \<open>
  The frames of the bytes \<open>0xFA\<close> (the keyboard's acknowledge), \<open>0x1D\<close> and \<open>0x45\<close>.
\<close>

definition frame_FA :: "(uint8_t \<times> uint8_t) list" where
  "frame_FA =
     [(0x00, 0x00),
      (0x00, 0x00), (0x00, 0x10), (0x00, 0x00), (0x00, 0x10),
      (0x00, 0x10), (0x00, 0x10), (0x00, 0x10), (0x00, 0x10),
      (0x00, 0x10), (0x00, 0x10)]"

definition frame_1D :: "(uint8_t \<times> uint8_t) list" where
  "frame_1D =
     [(0x00, 0x00),
      (0x00, 0x10), (0x00, 0x00), (0x00, 0x10), (0x00, 0x10),
      (0x00, 0x10), (0x00, 0x00), (0x00, 0x00), (0x00, 0x00),
      (0x00, 0x10), (0x00, 0x10)]"

definition frame_45 :: "(uint8_t \<times> uint8_t) list" where
  "frame_45 =
     [(0x00, 0x00),
      (0x00, 0x10), (0x00, 0x00), (0x00, 0x10), (0x00, 0x00),
      (0x00, 0x00), (0x00, 0x00), (0x00, 0x10), (0x00, 0x00),
      (0x00, 0x00), (0x00, 0x10)]"

text \<open>
  A keyboard that answers two transmissions: the reads of \<open>PINB\<close> of two transmissions,
  each acknowledged, and the two acknowledge bytes that arrive as pin-change interrupts
  while the caller waits for them.
\<close>

definition kbd_state :: avr where
  "kbd_state =
     reset_state\<lparr>pinb_polls := tx_polls 0x08 @ tx_polls 0x08,
       irq_pending := map (\<lambda>e. PCINT0 (fst e) (snd e)) (frame_FA @ frame_FA)\<rparr>"

text \<open>
  The lead byte \<open>0xE1\<close> received, and the rest of a Pause sequence and one more byte still
  to arrive as pin-change interrupts.
\<close>

definition pause_state :: avr where
  "pause_state =
     (scan_state [0xE1])\<lparr>irq_pending :=
        map (\<lambda>e. PCINT0 (fst e) (snd e)) (frame_1D @ frame_45 @ frame_1C)\<rparr>"

section \<open>Ring buffer bounds and rejected operations\<close>

lemma write_key_full: "KEY_BUFF_SIZE \<le> key_code_count s \<Longrightarrow> write_key k s = (-1, s)"
  by (simp add: write_key_def)

lemma write_keys_full: "KEY_BUFF_SIZE \<le> key_code_count s \<Longrightarrow> write_keys ks s = s"
  by (induction ks) (simp_all add: write_key_full)

lemma read_key_empty: "key_code_count s \<le> 0 \<Longrightarrow> read_key s = (-1, s)"
  by (simp add: read_key_def)

lemma ps2_recv_empty: "ps2_scan_code_count s \<le> 0 \<Longrightarrow> ps2_recv s = (-1, s)"
  by (simp add: ps2_recv_def)

lemma read_key_empty_funpow:
  "key_code_count s \<le> 0 \<Longrightarrow> ((\<lambda>t. snd (read_key t)) ^^ n) s = s"
  by (induction n) (simp_all add: read_key_empty)

lemma ps2_recv_empty_funpow:
  "ps2_scan_code_count s \<le> 0 \<Longrightarrow> ((\<lambda>t. snd (ps2_recv t)) ^^ n) s = s"
  by (induction n) (simp_all add: ps2_recv_empty)

lemma PCINT0_vect_full:
  "PS2_BUFF_SIZE \<le> ps2_scan_code_count s \<Longrightarrow> ps2_queue (PCINT0_vect c d s) = ps2_queue s"
  by (simp add: PCINT0_vect_def ps2_queue_def Let_def split: ps2_state_t.split)

lemma pcint_run_full:
  "PS2_BUFF_SIZE \<le> ps2_scan_code_count s \<Longrightarrow> ps2_queue (pcint_run es s) = ps2_queue s"
proof (induction es arbitrary: s)
  case Nil
  show ?case by simp
next
  case (Cons e es)
  have q: "ps2_queue (PCINT0_vect (fst e) (snd e) s) = ps2_queue s"
    using Cons.prems by (rule PCINT0_vect_full)
  then have "PS2_BUFF_SIZE \<le> ps2_scan_code_count (PCINT0_vect (fst e) (snd e) s)"
    using Cons.prems by (simp add: ps2_queue_def)
  then show ?case using Cons.IH q by simp
qed

lemma PCINT0_vect_overrun:
  "ps2_rx_state s = PS2_STOP \<Longrightarrow> c AND PS2_CLOCK = 0 \<Longrightarrow> drop_bit 4 (d AND PS2_DATA) = 1 \<Longrightarrow>
   PS2_BUFF_SIZE \<le> ps2_scan_code_count s \<Longrightarrow>
   PCINT0_vect c d s = s\<lparr>ps2_rx_state := PS2_RX_ERR_OVERRUN\<rparr>"
  by (simp add: PCINT0_vect_def)

lemma PCINT0_vect_count:
  "0 \<le> ps2_scan_code_count s \<Longrightarrow> ps2_scan_code_count s \<le> PS2_BUFF_SIZE \<Longrightarrow>
   0 \<le> ps2_scan_code_count (PCINT0_vect c d s) \<and>
   ps2_scan_code_count (PCINT0_vect c d s) \<le> PS2_BUFF_SIZE"
  by (simp add: PCINT0_vect_def Let_def split: ps2_state_t.split)

text \<open>
  C5. For both ring buffers, capacity 32: every push (\<open>write_key\<close>; the store of a
  completed byte by the pin-change handler) and every pop (\<open>read_key\<close>, \<open>ps2_recv\<close>)
  keeps the count between 0 and the capacity. A push onto a full queue changes neither
  the entries nor the indices nor the count and signals the failure (\<open>write_key\<close>
  returns \<open>-1\<close>; the receiver latches \<open>PS2_RX_ERR_OVERRUN\<close>), however often it is
  repeated. A pop of an empty queue returns \<open>-1\<close> and changes nothing, however often it
  is repeated.
\<close>

theorem ring_buffer_bounds:
  assumes "0 \<le> key_code_count s" and "key_code_count s \<le> KEY_BUFF_SIZE"
    and "0 \<le> ps2_scan_code_count s" and "ps2_scan_code_count s \<le> PS2_BUFF_SIZE"
  shows "(0 \<le> key_code_count (snd (write_key k s)) \<and>
          key_code_count (snd (write_key k s)) \<le> KEY_BUFF_SIZE) \<and>
         (0 \<le> key_code_count (snd (read_key s)) \<and>
          key_code_count (snd (read_key s)) \<le> KEY_BUFF_SIZE) \<and>
         (0 \<le> ps2_scan_code_count (PCINT0_vect c d s) \<and>
          ps2_scan_code_count (PCINT0_vect c d s) \<le> PS2_BUFF_SIZE) \<and>
         (0 \<le> ps2_scan_code_count (snd (ps2_recv s)) \<and>
          ps2_scan_code_count (snd (ps2_recv s)) \<le> PS2_BUFF_SIZE) \<and>
         (key_code_count s = KEY_BUFF_SIZE \<longrightarrow>
          write_key k s = (-1, s) \<and> write_keys ks s = s) \<and>
         (ps2_scan_code_count s = PS2_BUFF_SIZE \<longrightarrow>
          ps2_queue (PCINT0_vect c d s) = ps2_queue s \<and>
          ps2_queue (pcint_run es s) = ps2_queue s \<and>
          (ps2_rx_state s = PS2_STOP \<and> c AND PS2_CLOCK = 0 \<and>
           drop_bit 4 (d AND PS2_DATA) = 1 \<longrightarrow>
           PCINT0_vect c d s = s\<lparr>ps2_rx_state := PS2_RX_ERR_OVERRUN\<rparr>)) \<and>
         (key_code_count s = 0 \<longrightarrow>
          read_key s = (-1, s) \<and> ((\<lambda>t. snd (read_key t)) ^^ n) s = s) \<and>
         (ps2_scan_code_count s = 0 \<longrightarrow>
          ps2_recv s = (-1, s) \<and> ((\<lambda>t. snd (ps2_recv t)) ^^ n) s = s)"
proof -
  have push_key: "0 \<le> key_code_count (snd (write_key k s)) \<and>
        key_code_count (snd (write_key k s)) \<le> KEY_BUFF_SIZE"
    using assms(1,2) by (simp add: write_key_def)
  have pop_key: "0 \<le> key_code_count (snd (read_key s)) \<and>
        key_code_count (snd (read_key s)) \<le> KEY_BUFF_SIZE"
    using assms(1,2) by (simp add: read_key_def)
  have push_scan: "0 \<le> ps2_scan_code_count (PCINT0_vect c d s) \<and>
        ps2_scan_code_count (PCINT0_vect c d s) \<le> PS2_BUFF_SIZE"
    using assms(3,4) by (rule PCINT0_vect_count)
  have pop_scan: "0 \<le> ps2_scan_code_count (snd (ps2_recv s)) \<and>
        ps2_scan_code_count (snd (ps2_recv s)) \<le> PS2_BUFF_SIZE"
    using assms(3,4) by (simp add: ps2_recv_def)
  have full_key: "key_code_count s = KEY_BUFF_SIZE \<longrightarrow>
        write_key k s = (-1, s) \<and> write_keys ks s = s"
    by (simp add: write_key_full write_keys_full)
  have full_scan: "ps2_scan_code_count s = PS2_BUFF_SIZE \<longrightarrow>
        ps2_queue (PCINT0_vect c d s) = ps2_queue s \<and>
        ps2_queue (pcint_run es s) = ps2_queue s \<and>
        (ps2_rx_state s = PS2_STOP \<and> c AND PS2_CLOCK = 0 \<and>
         drop_bit 4 (d AND PS2_DATA) = 1 \<longrightarrow>
         PCINT0_vect c d s = s\<lparr>ps2_rx_state := PS2_RX_ERR_OVERRUN\<rparr>)"
    by (simp add: PCINT0_vect_full pcint_run_full PCINT0_vect_overrun)
  have empty_key: "key_code_count s = 0 \<longrightarrow>
        read_key s = (-1, s) \<and> ((\<lambda>t. snd (read_key t)) ^^ n) s = s"
    by (simp add: read_key_empty read_key_empty_funpow)
  have empty_scan: "ps2_scan_code_count s = 0 \<longrightarrow>
        ps2_recv s = (-1, s) \<and> ((\<lambda>t. snd (ps2_recv t)) ^^ n) s = s"
    by (simp add: ps2_recv_empty ps2_recv_empty_funpow)
  show ?thesis
    using push_key pop_key push_scan pop_scan full_key full_scan empty_key empty_scan
    by blast
qed

theorem ring_buffer_bounds_witness:
  "write_key 0x1E full_state = (-1, full_state) \<and>
   write_keys [0x1E, 0x1F] full_state = full_state \<and>
   PCINT0_vect 0x10 0x10 full_state = full_state\<lparr>ps2_rx_state := PS2_RX_ERR_OVERRUN\<rparr> \<and>
   ps2_queue (pcint_run [(0x10, 0x10), (0, 0)] full_state) = ps2_queue full_state \<and>
   key_code_count (snd (write_key 0x1E reset_state)) \<le> KEY_BUFF_SIZE \<and>
   read_key reset_state = (-1, reset_state) \<and>
   ((\<lambda>t. snd (read_key t)) ^^ 3) reset_state = reset_state \<and>
   ps2_recv reset_state = (-1, reset_state) \<and>
   ((\<lambda>t. snd (ps2_recv t)) ^^ 3) reset_state = reset_state"
proof -
  have f: "0 \<le> key_code_count full_state" "key_code_count full_state \<le> KEY_BUFF_SIZE"
    "0 \<le> ps2_scan_code_count full_state" "ps2_scan_code_count full_state \<le> PS2_BUFF_SIZE"
    "key_code_count full_state = KEY_BUFF_SIZE" "ps2_scan_code_count full_state = PS2_BUFF_SIZE"
    "ps2_rx_state full_state = PS2_STOP"
    by (simp_all add: full_state_def reset_state_def)
  have r: "0 \<le> key_code_count reset_state" "key_code_count reset_state \<le> KEY_BUFF_SIZE"
    "0 \<le> ps2_scan_code_count reset_state" "ps2_scan_code_count reset_state \<le> PS2_BUFF_SIZE"
    "key_code_count reset_state = 0" "ps2_scan_code_count reset_state = 0"
    by (simp_all add: reset_state_def)
  have bits: "(0x10 :: uint8_t) AND PS2_CLOCK = 0" "drop_bit 4 ((0x10 :: uint8_t) AND PS2_DATA) = 1"
    by simp_all
  note full = ring_buffer_bounds [OF f(1-4), of "0x1E" "0x10" "0x10" "[0x1E, 0x1F]"
      "[(0x10, 0x10), (0, 0)]" 3]
  note empty = ring_buffer_bounds [OF r(1-4), of "0x1E" "0x10" "0x10" "[]" "[]" 3]
  from full f(5-7) bits
  have "write_key 0x1E full_state = (-1, full_state) \<and>
    write_keys [0x1E, 0x1F] full_state = full_state \<and>
    PCINT0_vect 0x10 0x10 full_state = full_state\<lparr>ps2_rx_state := PS2_RX_ERR_OVERRUN\<rparr> \<and>
    ps2_queue (pcint_run [(0x10, 0x10), (0, 0)] full_state) = ps2_queue full_state"
    by blast
  moreover from empty r(5,6)
  have "key_code_count (snd (write_key 0x1E reset_state)) \<le> KEY_BUFF_SIZE \<and>
    read_key reset_state = (-1, reset_state) \<and>
    ((\<lambda>t. snd (read_key t)) ^^ 3) reset_state = reset_state \<and>
    ps2_recv reset_state = (-1, reset_state) \<and>
    ((\<lambda>t. snd (ps2_recv t)) ^^ 3) reset_state = reset_state"
    by blast
  ultimately show ?thesis by blast
qed

section \<open>Ring buffers as queues\<close>

lemma wrap_succ: "0 \<le> (i::int) \<Longrightarrow> i < 32 \<Longrightarrow> (if i + 1 = 32 then 0 else i + 1) = (i + 1) mod 32"
  by auto

lemma ring_push_ok:
  assumes "ring_ok buf out inp n" "n < 32"
  shows  "ring_ok (buf[nat inp := x]) out (if inp + 1 = 32 then 0 else inp + 1) (n + 1)"
proof -
  have i: "0 \<le> inp" "inp < 32" "inp = (out + n) mod 32" using assms by (auto simp: ring_ok_def)
  have "(if inp + 1 = 32 then 0 else inp + 1) = (inp + 1) mod 32" using i(1,2) by (rule wrap_succ)
  also have "\<dots> = (out + (n + 1)) mod 32" unfolding i(3) by (simp add: mod_simps add.assoc)
  finally show ?thesis using assms by (simp add: ring_ok_def)
qed

lemma ring_pop_ok:
  assumes "ring_ok buf out inp n" "0 < n"
  shows "ring_ok buf (if out + 1 = 32 then 0 else out + 1) inp (n - 1)"
proof -
  have i: "0 \<le> out" "out < 32" "inp = (out + n) mod 32" using assms by (auto simp: ring_ok_def)
  have w: "(if out + 1 = 32 then 0 else out + 1) = (out + 1) mod 32" using i(1,2) by (rule wrap_succ)
  have "((out + 1) mod 32 + (n - 1)) mod 32 = (out + n) mod 32" by (simp add: mod_simps)
  then show ?thesis using assms unfolding w by (simp add: ring_ok_def)
qed

lemma ring_slot_distinct:
  assumes "j < k" and "k < (32::nat)"
  shows "(a + j) mod 32 \<noteq> (a + k) mod 32"
proof
  assume "(a + j) mod 32 = (a + k) mod 32"
  then have "(a + k) mod 32 = (a + j) mod 32" by simp
  then have "32 dvd (a + k) - (a + j)"
    using assms(1) by (simp add: mod_eq_dvd_iff_nat)
  then have "32 dvd k - j" by simp
  moreover have "0 < k - j" "k - j < 32" using assms by auto
  ultimately show False using nat_dvd_not_less by blast
qed

lemma ring_push_contents:
  assumes "ring_ok buf out inp n" and "n < 32"
  shows "ring_contents (buf[nat inp := x]) out (n + 1) = ring_contents buf out n @ [x]"
proof -
  obtain o' k where o: "out = int o'" and k: "n = int k"
    using assms(1) by (auto simp: ring_ok_def elim!: nonneg_int_cases)
  have b: "o' < 32" "k < 32" "length buf = 32"
    using assms o k by (auto simp: ring_ok_def)
  have "inp = int ((o' + k) mod 32)" using assms(1) o k by (simp add: ring_ok_def zmod_int)
  then have i: "nat inp = (o' + k) mod 32" by simp
  have "ring_contents (buf[nat inp := x]) out (n + 1)
      = map (\<lambda>i. buf[(o' + k) mod 32 := x] ! ((o' + i) mod 32)) [0..<Suc k]"
    by (simp add: ring_contents_def o k i nat_add_distrib)
  also have "\<dots> = map (\<lambda>i. buf[(o' + k) mod 32 := x] ! ((o' + i) mod 32)) [0..<k] @ [x]"
    using b by simp
  also have "map (\<lambda>i. buf[(o' + k) mod 32 := x] ! ((o' + i) mod 32)) [0..<k]
      = map (\<lambda>i. buf ! ((o' + i) mod 32)) [0..<k]"
  proof (rule map_cong [OF refl])
    fix j assume "j \<in> set [0..<k]"
    then have "j < k" by simp
    then have "(o' + k) mod 32 \<noteq> (o' + j) mod 32"
      using ring_slot_distinct [of j k o'] b(2) by simp
    then show "buf[(o' + k) mod 32 := x] ! ((o' + j) mod 32) = buf ! ((o' + j) mod 32)"
      by (rule nth_list_update_neq)
  qed
  finally show ?thesis by (simp add: ring_contents_def o k)
qed

lemma ring_pop_contents:
  assumes "ring_ok buf out inp n" and "0 < n"
  shows "ring_contents buf out n =
         buf ! nat out # ring_contents buf (if out + 1 = 32 then 0 else out + 1) (n - 1)"
proof -
  obtain o' where o: "out = int o'"
    using assms(1) by (auto simp: ring_ok_def elim!: nonneg_int_cases)
  obtain k where k: "n = int (Suc k)"
    using assms(2) by (metis Suc_pred' zero_less_imp_eq_int)
  have b: "o' < 32" using assms o by (simp add: ring_ok_def)
  have nx: "(if int o' + 1 = 32 then 0 else int o' + 1) = int (Suc o' mod 32)"
    using b by auto
  have "[0..<Suc k] = 0 # map Suc [0..<k]"
    by (simp only: map_Suc_upt upt_conv_Cons [of 0 "Suc k"] zero_less_Suc if_True)
  then have "ring_contents buf out n = map (\<lambda>i. buf ! ((o' + i) mod 32)) (0 # map Suc [0..<k])"
    unfolding ring_contents_def o k by (simp only: nat_int)
  also have "\<dots> = buf ! o' # map (\<lambda>i. buf ! ((Suc o' mod 32 + i) mod 32)) [0..<k]"
    using b by (simp add: comp_def mod_simps)
  also have "\<dots> = buf ! nat out #
      ring_contents buf (if out + 1 = 32 then 0 else out + 1) (n - 1)"
    unfolding ring_contents_def o k nx by simp
  finally show ?thesis .
qed

section \<open>The receiver, edge by edge\<close>

lemma sampled_bit: "drop_bit 4 ((d::uint8_t) AND PS2_DATA) = of_bool (bit d 4)"
  by (rule bit_word_eqI) (auto simp add: bit_simps)

lemma clock_low: "((c::uint8_t) AND PS2_CLOCK = 0) = (\<not> bit c 3)"
proof -
  have "(c AND 2 ^ 3 = 0) = (\<not> bit c 3)" by (rule and_exp_eq_0_iff_not_bit)
  then show ?thesis by simp
qed

lemma PCINT0_vect_high: "bit c 3 \<Longrightarrow> PCINT0_vect c d s = s"
  unfolding PCINT0_vect_def sampled_bit clock_low by simp

lemma PCINT0_vect_idle:
  "ps2_rx_state s = PS2_IDLE \<Longrightarrow> \<not> bit c 3 \<Longrightarrow>
   PCINT0_vect c d s =
     (if bit d 4 then s\<lparr>ps2_rx_state := PS2_RX_ERR_START\<rparr>
      else s\<lparr>ps2_rx_data_byte := 0, ps2_rx_bit_count := 0, ps2_rx_parity := 0,
             ps2_rx_state := PS2_DATA_BITS\<rparr>)"
  unfolding PCINT0_vect_def sampled_bit clock_low by simp

lemma PCINT0_vect_data:
  "ps2_rx_state s = PS2_DATA_BITS \<Longrightarrow> \<not> bit c 3 \<Longrightarrow>
   PCINT0_vect c d s =
     s\<lparr>ps2_rx_parity := ps2_rx_parity s + of_bool (bit d 4),
       ps2_rx_data_byte :=
         ps2_rx_data_byte s + push_bit (nat (ps2_rx_bit_count s)) (of_bool (bit d 4)),
       ps2_rx_bit_count := ps2_rx_bit_count s + 1,
       ps2_rx_state := (if ps2_rx_bit_count s + 1 = 8 then PS2_PARITY else PS2_DATA_BITS)\<rparr>"
  unfolding PCINT0_vect_def sampled_bit clock_low by simp

lemma and_1_odd: "((x::int) AND 1 \<noteq> 0) = odd x"
  by (simp add: and_one_eq odd_iff_mod_2_eq_one)

lemma PCINT0_vect_parity:
  "ps2_rx_state s = PS2_PARITY \<Longrightarrow> \<not> bit c 3 \<Longrightarrow>
   PCINT0_vect c d s =
     (if odd (ps2_rx_parity s + of_bool (bit d 4)) then s\<lparr>ps2_rx_state := PS2_STOP\<rparr>
      else s\<lparr>ps2_rx_state := PS2_RX_ERR_PARITY\<rparr>)"
  unfolding PCINT0_vect_def sampled_bit clock_low and_1_odd by simp

lemma PCINT0_vect_stop:
  "ps2_rx_state s = PS2_STOP \<Longrightarrow> \<not> bit c 3 \<Longrightarrow>
   PCINT0_vect c d s =
     (if bit d 4 then
        (if ps2_scan_code_count s < PS2_BUFF_SIZE then
           s\<lparr>ps2_scan_codes := (ps2_scan_codes s)[nat (ps2_buffer_in s) := ps2_rx_data_byte s],
             ps2_scan_code_count := ps2_scan_code_count s + 1,
             ps2_buffer_in :=
               (if ps2_buffer_in s + 1 = PS2_BUFF_SIZE then 0 else ps2_buffer_in s + 1),
             ps2_rx_state := PS2_IDLE\<rparr>
         else s\<lparr>ps2_rx_state := PS2_RX_ERR_OVERRUN\<rparr>)
      else s\<lparr>ps2_rx_state := PS2_RX_ERR_STOP\<rparr>)"
  unfolding PCINT0_vect_def sampled_bit clock_low by simp

lemma PCINT0_vect_latched: "rx_error (ps2_rx_state s) \<Longrightarrow> PCINT0_vect c d s = s"
  by (auto simp add: PCINT0_vect_def rx_error_def Let_def)

lemma pcint_run_latched: "rx_error (ps2_rx_state s) \<Longrightarrow> pcint_run es s = s"
  by (induction es) (simp_all add: PCINT0_vect_latched)

lemma pcint_run_append: "pcint_run (es @ fs) s = pcint_run fs (pcint_run es s)"
  by (induction es arbitrary: s) simp_all

lemma take_bit_Suc_word:
  "take_bit (Suc n) (w::'a::len word) = take_bit n w + push_bit n (of_bool (bit w n))"
proof -
  have "take_bit (Suc n) w = take_bit n w OR push_bit n (of_bool (bit w n))"
    by (rule bit_word_eqI) (auto simp add: bit_simps less_Suc_eq)
  also have "\<dots> = take_bit n w + push_bit n (of_bool (bit w n))"
    by (rule disjunctive_add [symmetric]) (auto simp add: bit_simps)
  finally show ?thesis .
qed

lemma data_bits_run:
  assumes "\<forall>e\<in>set es. \<not> bit (fst e) 3"
    and "map (\<lambda>e. bit (snd e) 4) es = map (bit b) [0..<length es]"
    and "length es \<le> 8"
  shows "pcint_run es (t\<lparr>ps2_rx_data_byte := 0, ps2_rx_bit_count := 0, ps2_rx_parity := 0,
             ps2_rx_state := PS2_DATA_BITS\<rparr>) =
         t\<lparr>ps2_rx_data_byte := take_bit (length es) b,
           ps2_rx_bit_count := int (length es),
           ps2_rx_parity := int (length (filter (bit b) [0..<length es])),
           ps2_rx_state := (if length es = 8 then PS2_PARITY else PS2_DATA_BITS)\<rparr>"
  using assms
proof (induction es rule: rev_induct)
  case Nil
  show ?case by simp
next
  case (snoc e es)
  let ?n = "length es"
  have low: "\<forall>e\<in>set es. \<not> bit (fst e) 3" and e_low: "\<not> bit (fst e) 3"
    using snoc.prems(1) by simp_all
  have bits: "map (\<lambda>e. bit (snd e) 4) es = map (bit b) [0..<?n]"
    and e_bit: "bit (snd e) 4 = bit b ?n"
    using snoc.prems(2) by simp_all
  have n: "?n < 8" using snoc.prems(3) by simp
  let ?mid = "t\<lparr>ps2_rx_data_byte := take_bit ?n b, ps2_rx_bit_count := int ?n,
      ps2_rx_parity := int (length (filter (bit b) [0..<?n])),
      ps2_rx_state := PS2_DATA_BITS\<rparr>"
  have "pcint_run es (t\<lparr>ps2_rx_data_byte := 0, ps2_rx_bit_count := 0, ps2_rx_parity := 0,
             ps2_rx_state := PS2_DATA_BITS\<rparr>) = ?mid"
    using snoc.IH [OF low bits] n by simp
  then have "pcint_run (es @ [e]) (t\<lparr>ps2_rx_data_byte := 0, ps2_rx_bit_count := 0,
      ps2_rx_parity := 0, ps2_rx_state := PS2_DATA_BITS\<rparr>) = PCINT0_vect (fst e) (snd e) ?mid"
    by (simp add: pcint_run_append)
  also have "\<dots> = ?mid\<lparr>ps2_rx_parity := ps2_rx_parity ?mid + of_bool (bit (snd e) 4),
       ps2_rx_data_byte :=
         ps2_rx_data_byte ?mid + push_bit (nat (ps2_rx_bit_count ?mid)) (of_bool (bit (snd e) 4)),
       ps2_rx_bit_count := ps2_rx_bit_count ?mid + 1,
       ps2_rx_state := (if ps2_rx_bit_count ?mid + 1 = 8 then PS2_PARITY else PS2_DATA_BITS)\<rparr>"
    using e_low by (intro PCINT0_vect_data) simp_all
  also have "\<dots> = t\<lparr>ps2_rx_data_byte := take_bit (Suc ?n) b,
           ps2_rx_bit_count := int (Suc ?n),
           ps2_rx_parity := int (length (filter (bit b) [0..<Suc ?n])),
           ps2_rx_state := (if Suc ?n = 8 then PS2_PARITY else PS2_DATA_BITS)\<rparr>"
    by (simp add: e_bit take_bit_Suc_word)
  finally show ?case by simp
qed

lemma frame_ones_odd:
  "odd (frame_ones b p) = odd (int (length (filter (bit b) [0..<8])) + of_bool p)"
  by (cases p) (simp_all add: frame_ones_def filter_map comp_def del: upt_Suc)

lemma pcint_run_frame:
  assumes idle: "ps2_rx_state s = PS2_IDLE"
    and low: "\<forall>e\<in>set evs. \<not> bit (fst e) 3"
    and frame: "map (\<lambda>e. bit (snd e) 4) evs = st # map (bit b) [0..<8] @ [p, sp]"
  shows "pcint_run evs s =
    (if st then s\<lparr>ps2_rx_state := PS2_RX_ERR_START\<rparr>
     else if even (frame_ones b p) then
       s\<lparr>ps2_rx_data_byte := b, ps2_rx_bit_count := 8,
         ps2_rx_parity := int (length (filter (bit b) [0..<8])),
         ps2_rx_state := PS2_RX_ERR_PARITY\<rparr>
     else if \<not> sp then
       s\<lparr>ps2_rx_data_byte := b, ps2_rx_bit_count := 8,
         ps2_rx_parity := int (length (filter (bit b) [0..<8])),
         ps2_rx_state := PS2_RX_ERR_STOP\<rparr>
     else if ps2_scan_code_count s < PS2_BUFF_SIZE then
       s\<lparr>ps2_rx_data_byte := b, ps2_rx_bit_count := 8,
         ps2_rx_parity := int (length (filter (bit b) [0..<8])),
         ps2_scan_codes := (ps2_scan_codes s)[nat (ps2_buffer_in s) := b],
         ps2_scan_code_count := ps2_scan_code_count s + 1,
         ps2_buffer_in := (if ps2_buffer_in s + 1 = PS2_BUFF_SIZE then 0 else ps2_buffer_in s + 1),
         ps2_rx_state := PS2_IDLE\<rparr>
     else
       s\<lparr>ps2_rx_data_byte := b, ps2_rx_bit_count := 8,
         ps2_rx_parity := int (length (filter (bit b) [0..<8])),
         ps2_rx_state := PS2_RX_ERR_OVERRUN\<rparr>)"
proof -
  obtain e0 es' where evs: "evs = e0 # es'" and st: "bit (snd e0) 4 = st"
    and rest: "map (\<lambda>e. bit (snd e) 4) es' = map (bit b) [0..<8] @ [p, sp]"
    using frame unfolding map_eq_Cons_conv by blast
  obtain es tl2 where es': "es' = es @ tl2"
    and data: "map (\<lambda>e. bit (snd e) 4) es = map (bit b) [0..<8]"
    and tl2: "map (\<lambda>e. bit (snd e) 4) tl2 = [p, sp]"
    using rest unfolding map_eq_append_conv by metis
  obtain ep es1 where tl2_eq: "tl2 = [ep, es1]" and p: "bit (snd ep) 4 = p"
    and sp: "bit (snd es1) 4 = sp"
    using tl2 unfolding map_eq_Cons_conv map_is_Nil_conv by blast
  have len: "length es = 8" using data [THEN arg_cong, of length] by simp
  have lows: "\<not> bit (fst e0) 3" "\<forall>e\<in>set es. \<not> bit (fst e) 3" "\<not> bit (fst ep) 3"
    "\<not> bit (fst es1) 3"
    using low by (simp_all add: evs es' tl2_eq)
  show ?thesis
  proof (cases st)
    case True
    then have "PCINT0_vect (fst e0) (snd e0) s = s\<lparr>ps2_rx_state := PS2_RX_ERR_START\<rparr>"
      using idle lows(1) st by (simp add: PCINT0_vect_idle)
    then have "pcint_run evs s = s\<lparr>ps2_rx_state := PS2_RX_ERR_START\<rparr>"
      by (simp add: evs pcint_run_latched rx_error_def)
    then show ?thesis using True by simp
  next
    case False
    let ?start = "s\<lparr>ps2_rx_data_byte := 0, ps2_rx_bit_count := 0, ps2_rx_parity := 0,
        ps2_rx_state := PS2_DATA_BITS\<rparr>"
    let ?par = "s\<lparr>ps2_rx_data_byte := b, ps2_rx_bit_count := 8,
        ps2_rx_parity := int (length (filter (bit b) [0..<8])), ps2_rx_state := PS2_PARITY\<rparr>"
    have s0: "PCINT0_vect (fst e0) (snd e0) s = ?start"
      using False idle lows(1) st by (simp add: PCINT0_vect_idle)
    have "pcint_run es ?start = s\<lparr>ps2_rx_data_byte := take_bit (length es) b,
           ps2_rx_bit_count := int (length es),
           ps2_rx_parity := int (length (filter (bit b) [0..<length es])),
           ps2_rx_state := (if length es = 8 then PS2_PARITY else PS2_DATA_BITS)\<rparr>"
      using lows(2) data len by (intro data_bits_run) simp_all
    moreover have "take_bit 8 b = b"
      using take_bit_length_eq [of b] by simp
    ultimately have s8: "pcint_run es ?start = ?par"
      by (simp add: len)
    have s9: "PCINT0_vect (fst ep) (snd ep) ?par =
        (if odd (frame_ones b p) then ?par\<lparr>ps2_rx_state := PS2_STOP\<rparr>
         else ?par\<lparr>ps2_rx_state := PS2_RX_ERR_PARITY\<rparr>)"
      using lows(3) p by (subst PCINT0_vect_parity) (simp_all add: frame_ones_odd del: upt_Suc)
    have run: "pcint_run evs s =
        PCINT0_vect (fst es1) (snd es1) (PCINT0_vect (fst ep) (snd ep) ?par)"
      by (simp add: evs es' tl2_eq pcint_run_append s0 s8 del: upt_Suc)
    show ?thesis
    proof (cases "odd (frame_ones b p)")
      case False
      then show ?thesis
        using \<open>\<not> st\<close> run s9 by (simp add: PCINT0_vect_latched rx_error_def del: upt_Suc)
    next
      case True
      then have "pcint_run evs s = PCINT0_vect (fst es1) (snd es1) (?par\<lparr>ps2_rx_state := PS2_STOP\<rparr>)"
        using run s9 by simp
      then show ?thesis
        using True \<open>\<not> st\<close> lows(4) sp by (simp add: PCINT0_vect_stop del: upt_Suc)
    qed
  qed
qed

lemma ps2_queue_ok_reset: "ps2_queue_ok reset_state"
  by (simp add: ps2_queue_ok_def ring_ok_def reset_state_def)

text \<open>
  C1. Starting from \<open>PS2_IDLE\<close> with room in the scan-code queue, eleven falling clock
  edges (the clock line PB3 sampled low) whose data samples (PB4) are a start bit 0, the
  eight bits of a byte \<open>b\<close> from bit 0 up, a parity bit that makes the number of 1s among
  data and parity bits odd, and a stop bit 1, leave the receiver in \<open>PS2_IDLE\<close> with
  exactly \<open>b\<close> appended to the queue, once; the first conjunct gives the whole final
  state.
\<close>

theorem receiver_valid_frame:
  assumes idle: "ps2_rx_state s = PS2_IDLE"
    and ok: "ps2_queue_ok s"
    and room: "ps2_scan_code_count s < PS2_BUFF_SIZE"
    and low: "\<forall>e\<in>set evs. \<not> bit (fst e) 3"
    and frame: "map (\<lambda>e. bit (snd e) 4) evs = False # map (bit b) [0..<8] @ [p, True]"
    and parity: "odd (frame_ones b p)"
  shows "pcint_run evs s =
           s\<lparr>ps2_rx_data_byte := b, ps2_rx_bit_count := 8,
             ps2_rx_parity := int (length (filter (bit b) [0..<8])),
             ps2_scan_codes := (ps2_scan_codes s)[nat (ps2_buffer_in s) := b],
             ps2_scan_code_count := ps2_scan_code_count s + 1,
             ps2_buffer_in :=
               (if ps2_buffer_in s + 1 = PS2_BUFF_SIZE then 0 else ps2_buffer_in s + 1),
             ps2_rx_state := PS2_IDLE\<rparr> \<and>
         ps2_rx_state (pcint_run evs s) = PS2_IDLE \<and>
         ps2_contents (pcint_run evs s) = ps2_contents s @ [b] \<and>
         ps2_queue_ok (pcint_run evs s)"
proof -
  have run: "pcint_run evs s =
           s\<lparr>ps2_rx_data_byte := b, ps2_rx_bit_count := 8,
             ps2_rx_parity := int (length (filter (bit b) [0..<8])),
             ps2_scan_codes := (ps2_scan_codes s)[nat (ps2_buffer_in s) := b],
             ps2_scan_code_count := ps2_scan_code_count s + 1,
             ps2_buffer_in :=
               (if ps2_buffer_in s + 1 = PS2_BUFF_SIZE then 0 else ps2_buffer_in s + 1),
             ps2_rx_state := PS2_IDLE\<rparr>"
    using pcint_run_frame [OF idle low frame] parity room by simp
  have "ps2_contents (pcint_run evs s) = ps2_contents s @ [b]"
    unfolding run using ring_push_contents [OF ok [unfolded ps2_queue_ok_def] room]
    by (simp add: ps2_contents_def)
  moreover have "ps2_queue_ok (pcint_run evs s)"
    unfolding run using ring_push_ok [OF ok [unfolded ps2_queue_ok_def] room]
    by (simp add: ps2_queue_ok_def)
  ultimately show ?thesis using run by simp
qed

lemma bits_1C: "map (bit (0x1C :: uint8_t)) [0..<8] =
    [False, False, True, True, True, False, False, False]"
  by (simp add: upt_rec bit_numeral_rec)

theorem receiver_valid_frame_witness:
  "pcint_run frame_1C reset_state =
     reset_state\<lparr>ps2_rx_data_byte := 0x1C, ps2_rx_bit_count := 8, ps2_rx_parity := 3,
       ps2_scan_codes := (replicate 32 0)[0 := 0x1C], ps2_scan_code_count := 1,
       ps2_buffer_in := 1, ps2_rx_state := PS2_IDLE\<rparr> \<and>
   ps2_contents (pcint_run frame_1C reset_state) = [0x1C]"
proof -
  have idle: "ps2_rx_state reset_state = PS2_IDLE"
    and room: "ps2_scan_code_count reset_state < PS2_BUFF_SIZE"
    by (simp_all add: reset_state_def)
  have low: "\<forall>e\<in>set frame_1C. \<not> bit (fst e) 3"
    by (simp add: frame_1C_def bit_numeral_rec)
  have frame: "map (\<lambda>e. bit (snd e) 4) frame_1C =
      False # map (bit (0x1C :: uint8_t)) [0..<8] @ [False, True]"
    unfolding bits_1C by (simp add: frame_1C_def bit_numeral_rec)
  have parity: "odd (frame_ones 0x1C False)"
    unfolding frame_ones_def bits_1C by simp
  have ones: "length (filter (bit (0x1C :: uint8_t)) [0..<8]) = 3"
    by (simp add: upt_rec bit_numeral_rec)
  have start: "ps2_contents reset_state = []" "ps2_buffer_in reset_state = 0"
    "ps2_scan_code_count reset_state = 0" "ps2_scan_codes reset_state = replicate 32 0"
    by (simp_all add: ps2_contents_def ring_contents_def reset_state_def)
  note run = receiver_valid_frame [OF idle ps2_queue_ok_reset room low frame parity,
      unfolded ones start, simplified]
  from run show ?thesis by blast
qed

text \<open>
  C2. Starting from \<open>PS2_IDLE\<close>, a frame of eleven falling clock edges with a wrong start
  bit (1), a wrong parity (an even number of 1s) or a wrong stop bit (0) leaves the
  receiver in the error state of the first field that is wrong, which for a frame with
  exactly one wrong field is that field's state: \<open>PS2_RX_ERR_START\<close>,
  \<open>PS2_RX_ERR_PARITY\<close> or \<open>PS2_RX_ERR_STOP\<close>. Neither queue is changed, and every
  later pin-change interrupt, one or many, leaves the whole state as it is.
\<close>

theorem receiver_malformed_frame:
  assumes idle: "ps2_rx_state s = PS2_IDLE"
    and low: "\<forall>e\<in>set evs. \<not> bit (fst e) 3"
    and frame: "map (\<lambda>e. bit (snd e) 4) evs = st # map (bit b) [0..<8] @ [p, sp]"
    and bad: "st \<or> even (frame_ones b p) \<or> \<not> sp"
  shows "ps2_rx_state (pcint_run evs s) =
           (if st then PS2_RX_ERR_START
            else if even (frame_ones b p) then PS2_RX_ERR_PARITY
            else PS2_RX_ERR_STOP) \<and>
         ps2_queue (pcint_run evs s) = ps2_queue s \<and>
         key_queue (pcint_run evs s) = key_queue s \<and>
         pcint_run later (pcint_run evs s) = pcint_run evs s \<and>
         PCINT0_vect c d (pcint_run evs s) = pcint_run evs s"
proof -
  note run = pcint_run_frame [OF idle low frame]
  have st: "ps2_rx_state (pcint_run evs s) =
           (if st then PS2_RX_ERR_START
            else if even (frame_ones b p) then PS2_RX_ERR_PARITY
            else PS2_RX_ERR_STOP)"
    unfolding run using bad by auto
  then have err: "rx_error (ps2_rx_state (pcint_run evs s))"
    by (simp add: rx_error_def)
  have "ps2_queue (pcint_run evs s) = ps2_queue s"
    unfolding run using bad by (auto simp add: ps2_queue_def)
  moreover have "key_queue (pcint_run evs s) = key_queue s"
    unfolding run by (simp add: key_queue_def)
  ultimately show ?thesis
    using st pcint_run_latched [OF err] PCINT0_vect_latched [OF err] by simp
qed

theorem receiver_malformed_frame_witness:
  "ps2_rx_state (pcint_run frame_bad_start reset_state) = PS2_RX_ERR_START \<and>
   ps2_queue (pcint_run frame_bad_start reset_state) = ps2_queue reset_state \<and>
   ps2_rx_state (pcint_run frame_bad_parity reset_state) = PS2_RX_ERR_PARITY \<and>
   ps2_queue (pcint_run frame_bad_parity reset_state) = ps2_queue reset_state \<and>
   ps2_rx_state (pcint_run frame_bad_stop reset_state) = PS2_RX_ERR_STOP \<and>
   ps2_queue (pcint_run frame_bad_stop reset_state) = ps2_queue reset_state \<and>
   pcint_run frame_1C (pcint_run frame_bad_stop reset_state) =
     pcint_run frame_bad_stop reset_state"
proof -
  have idle: "ps2_rx_state reset_state = PS2_IDLE"
    by (simp add: reset_state_def)
  have low: "\<forall>e\<in>set frame_bad_start. \<not> bit (fst e) 3"
    "\<forall>e\<in>set frame_bad_parity. \<not> bit (fst e) 3"
    "\<forall>e\<in>set frame_bad_stop. \<not> bit (fst e) 3"
    by (simp_all add: frame_bad_start_def frame_bad_parity_def frame_bad_stop_def frame_1C_def
        bit_numeral_rec)
  have frames: "map (\<lambda>e. bit (snd e) 4) frame_bad_start =
      True # map (bit (0x1C :: uint8_t)) [0..<8] @ [False, True]"
    "map (\<lambda>e. bit (snd e) 4) frame_bad_parity =
      False # map (bit (0x1C :: uint8_t)) [0..<8] @ [True, True]"
    "map (\<lambda>e. bit (snd e) 4) frame_bad_stop =
      False # map (bit (0x1C :: uint8_t)) [0..<8] @ [False, False]"
    unfolding bits_1C
    by (simp_all add: frame_bad_start_def frame_bad_parity_def frame_bad_stop_def frame_1C_def
        bit_numeral_rec)
  have ones: "odd (frame_ones 0x1C False)" "even (frame_ones 0x1C True)"
    unfolding frame_ones_def bits_1C by simp_all
  note a = receiver_malformed_frame [OF idle low(1) frames(1), of "[]" 0 0, simplified]
  note b = receiver_malformed_frame [OF idle low(2) frames(2), of "[]" 0 0, simplified ones, simplified]
  note c = receiver_malformed_frame [OF idle low(3) frames(3), of frame_1C 0 0, simplified ones, simplified]
  from a b c show ?thesis by blast
qed

section \<open>The key-code queue and the host exchange\<close>

lemma uint_not_minus1: "uint (a::uint8_t) \<noteq> - 1" "- 1 \<noteq> uint a"
  using uint_ge_0 [of a] by linarith+

lemma ring_contents_length: "length (ring_contents buf out n) = nat n"
  by (simp add: ring_contents_def)

lemma write_key_contents:
  assumes "key_queue_ok s" and "key_code_count s < KEY_BUFF_SIZE"
  shows "key_contents (snd (write_key k s)) = key_contents s @ [k]"
    and "key_queue_ok (snd (write_key k s))"
  using ring_push_contents [OF assms(1) [unfolded key_queue_ok_def] assms(2), of k]
    ring_push_ok [OF assms(1) [unfolded key_queue_ok_def] assms(2), of k] assms(2)
  by (simp_all add: write_key_def key_contents_def key_queue_ok_def)

lemma write_key_other:
  "usidr (snd (write_key k s)) = usidr s"
  by (simp add: write_key_def)

lemma write_keys_contents:
  "key_queue_ok s \<Longrightarrow> key_code_count s + int (length ks) \<le> KEY_BUFF_SIZE \<Longrightarrow>
   key_contents (write_keys ks s) = key_contents s @ ks \<and> key_queue_ok (write_keys ks s) \<and>
   usidr (write_keys ks s) = usidr s"
proof (induction ks arbitrary: s)
  case Nil
  then show ?case by simp
next
  case (Cons k ks)
  have room: "key_code_count s < KEY_BUFF_SIZE" using Cons.prems(2) by simp
  note step = write_key_contents [OF Cons.prems(1) room, of k]
  have "key_code_count (snd (write_key k s)) = key_code_count s + 1"
    using room by (simp add: write_key_def)
  then have "key_code_count (snd (write_key k s)) + int (length ks) \<le> KEY_BUFF_SIZE"
    using Cons.prems(2) by simp
  from Cons.IH [OF step(2) this] show ?case
    by (simp add: step(1) write_key_other)
qed

lemma read_key_contents:
  assumes "key_queue_ok s" and "0 < key_code_count s"
  shows "fst (read_key s) = uint (hd (key_contents s))"
    and "key_contents (snd (read_key s)) = tl (key_contents s)"
    and "key_queue_ok (snd (read_key s))"
  using ring_pop_contents [OF assms(1) [unfolded key_queue_ok_def] assms(2)]
    ring_pop_ok [OF assms(1) [unfolded key_queue_ok_def] assms(2)] assms(2)
  by (simp_all add: read_key_def key_contents_def key_queue_ok_def)

lemma key_contents_empty: "key_code_count s \<le> 0 \<Longrightarrow> key_contents s = []"
  by (simp add: key_contents_def ring_contents_def)

lemma key_contents_nonempty: "0 < key_code_count s \<Longrightarrow> key_contents s \<noteq> []"
  by (simp add: key_contents_def ring_contents_def)

lemma USI_OVF_vect_effect:
  assumes "key_queue_ok s"
  shows "command_in (USI_OVF_vect s) = usidr s"
    and "usidr (USI_OVF_vect s) = (case key_contents s of [] \<Rightarrow> 0 | k # ks \<Rightarrow> k)"
    and "key_contents (USI_OVF_vect s) = tl (key_contents s)"
    and "key_queue_ok (USI_OVF_vect s)"
proof -
  let ?s1 = "s\<lparr>command_in := usidr s\<rparr>"
  have ok1: "key_queue_ok ?s1" using assms by (simp add: key_queue_ok_def)
  have c1: "key_contents ?s1 = key_contents s" by (simp add: key_contents_def)
  show "command_in (USI_OVF_vect s) = usidr s"
    by (simp add: USI_OVF_vect_def read_key_def Let_def)
  show "usidr (USI_OVF_vect s) = (case key_contents s of [] \<Rightarrow> 0 | k # ks \<Rightarrow> k)"
  proof (cases "0 < key_code_count s")
    case True
    then have pos: "0 < key_code_count ?s1" by simp
    have "fst (read_key ?s1) = uint (hd (key_contents s))"
      using read_key_contents(1) [OF ok1 pos] c1 by simp
    moreover have "key_contents s \<noteq> []" using True by (rule key_contents_nonempty)
    ultimately show ?thesis
      by (cases "key_contents s")
        (auto simp add: USI_OVF_vect_def Let_def uint_not_minus1 split: prod.split)
  next
    case False
    then have "key_contents s = []" by (simp add: key_contents_empty)
    then show ?thesis using False
      by (simp add: USI_OVF_vect_def read_key_def Let_def)
  qed
  show "key_contents (USI_OVF_vect s) = tl (key_contents s)"
  proof (cases "0 < key_code_count s")
    case True
    then have pos: "0 < key_code_count ?s1" by simp
    have "key_contents (snd (read_key ?s1)) = tl (key_contents s)"
      using read_key_contents(2) [OF ok1 pos] c1 by simp
    then show ?thesis
      by (auto simp add: USI_OVF_vect_def Let_def key_contents_def split: prod.split)
  next
    case False
    then have "key_contents s = []" by (simp add: key_contents_empty)
    then show ?thesis using False
      by (simp add: USI_OVF_vect_def read_key_def Let_def key_contents_def)
  qed
  show "key_queue_ok (USI_OVF_vect s)"
  proof (cases "0 < key_code_count s")
    case True
    then have pos: "0 < key_code_count ?s1" by simp
    have "key_queue_ok (snd (read_key ?s1))"
      using read_key_contents(3) [OF ok1 pos] .
    then show ?thesis
      by (auto simp add: USI_OVF_vect_def Let_def key_queue_ok_def split: prod.split)
  next
    case False
    then show ?thesis using assms
      by (simp add: USI_OVF_vect_def read_key_def Let_def key_queue_ok_def)
  qed
qed


lemma usi_transfer_effect:
  assumes "key_queue_ok s"
  shows "fst (usi_transfer h s) = usidr s"
    and "command_in (snd (usi_transfer h s)) = h"
    and "usidr (snd (usi_transfer h s)) = (case key_contents s of [] \<Rightarrow> 0 | k # ks \<Rightarrow> k)"
    and "key_contents (snd (usi_transfer h s)) = tl (key_contents s)"
    and "key_queue_ok (snd (usi_transfer h s))"
proof -
  have ok: "key_queue_ok (s\<lparr>usidr := h\<rparr>)" using assms by (simp add: key_queue_ok_def)
  have c: "key_contents (s\<lparr>usidr := h\<rparr>) = key_contents s" by (simp add: key_contents_def)
  note e = USI_OVF_vect_effect [OF ok]
  show "fst (usi_transfer h s) = usidr s" by (simp add: usi_transfer_def)
  show "command_in (snd (usi_transfer h s)) = h" using e(1) by (simp add: usi_transfer_def)
  show "usidr (snd (usi_transfer h s)) = (case key_contents s of [] \<Rightarrow> 0 | k # ks \<Rightarrow> k)"
    using e(2) c by (simp add: usi_transfer_def)
  show "key_contents (snd (usi_transfer h s)) = tl (key_contents s)"
    using e(3) c by (simp add: usi_transfer_def)
  show "key_queue_ok (snd (usi_transfer h s))" using e(4) by (simp add: usi_transfer_def)
qed

lemma take_pad: "take n (xs @ replicate n z) = take n (xs @ replicate (Suc n) z)"
  by (simp add: min_def del: replicate_Suc)

lemma usi_transfers_out:
  "key_queue_ok s \<Longrightarrow>
   fst (usi_transfers hs s) =
     take (length hs) (usidr s # key_contents s @ replicate (length hs) 0)"
proof (induction hs arbitrary: s)
  case Nil
  show ?case by simp
next
  case (Cons h hs)
  let ?s1 = "snd (usi_transfer h s)"
  note e = usi_transfer_effect [OF Cons.prems, of h]
  have "fst (usi_transfers hs ?s1) =
      take (length hs) (usidr ?s1 # key_contents ?s1 @ replicate (length hs) 0)"
    using e(5) by (rule Cons.IH)
  also have "usidr ?s1 # key_contents ?s1 @ replicate (length hs) 0 =
      (case key_contents s of [] \<Rightarrow> replicate (Suc (length hs)) 0
       | k # ks \<Rightarrow> key_contents s @ replicate (length hs) 0)"
    unfolding e(3,4) by (simp split: list.split)
  also have "take (length hs) \<dots> = take (length hs) (key_contents s @ replicate (Suc (length hs)) 0)"
    by (cases "key_contents s") (simp_all only: list.case append_Nil take_pad)
  finally have "fst (usi_transfers hs ?s1) =
      take (length hs) (key_contents s @ replicate (Suc (length hs)) 0)" .
  then show ?case
    using e(1) by (simp add: split_beta del: replicate_Suc)
qed


lemma key_queue_ok_reset: "key_queue_ok reset_state"
  by (simp add: key_queue_ok_def ring_ok_def reset_state_def)

lemma usi_staged_out:
  "key_queue_ok s \<Longrightarrow>
   usi_staged hs s = take (length hs) (key_contents s @ replicate (length hs) 0)"
proof (induction hs arbitrary: s)
  case Nil
  show ?case by simp
next
  case (Cons h hs)
  let ?s1 = "snd (usi_transfer h s)"
  note e = usi_transfer_effect [OF Cons.prems, of h]
  have "usi_staged hs ?s1 = take (length hs) (key_contents ?s1 @ replicate (length hs) 0)"
    using e(5) by (rule Cons.IH)
  then have step: "usi_staged (h # hs) s =
      (case key_contents s of [] \<Rightarrow> 0 | k # rest \<Rightarrow> k) #
        take (length hs) (tl (key_contents s) @ replicate (length hs) 0)"
    by (simp add: e(3,4))
  show ?case
  proof (cases "key_contents s")
    case Nil
    then show ?thesis using step by simp
  next
    case (Cons k rest)
    then show ?thesis using step take_pad [of "length hs" rest 0] by simp
  qed
qed

text \<open>
  C4. Each completed exchange latches the byte received from the host in \<open>command_in\<close>
  and pops one key code, which it stages in \<open>USIDR\<close> for the next transfer; with the
  queue empty it stages \<open>0x00\<close>. So the bytes staged by successive exchanges are the
  queued key codes, oldest first, and then \<open>0x00\<close>; the host receives them one transfer
  later, after the byte that was staged before. After the \<open>N\<close> codes \<open>ks\<close> are enqueued
  into an empty queue, \<open>N\<close> consecutive exchanges return exactly \<open>ks\<close> in order and all
  later ones return \<open>0x00\<close>.
\<close>

theorem host_responder_fifo:
  assumes ok: "key_queue_ok s"
  shows "command_in (snd (usi_transfer h s)) = h \<and>
         usidr (snd (usi_transfer h s)) = (case key_contents s of [] \<Rightarrow> 0 | k # rest \<Rightarrow> k) \<and>
         key_contents (snd (usi_transfer h s)) = tl (key_contents s) \<and>
         usi_staged hs s = take (length hs) (key_contents s @ replicate (length hs) 0) \<and>
         fst (usi_transfers hs s) =
           take (length hs) (usidr s # key_contents s @ replicate (length hs) 0) \<and>
         (key_code_count s = 0 \<and> length ks \<le> 32 \<longrightarrow>
            key_contents (write_keys ks s) = ks \<and>
            usi_staged hs (write_keys ks s) = take (length hs) (ks @ replicate (length hs) 0) \<and>
            fst (usi_transfers hs (write_keys ks s)) =
              take (length hs) (usidr s # ks @ replicate (length hs) 0))"
proof -
  note e = usi_transfer_effect [OF ok, of h]
  have "key_contents (write_keys ks s) = ks \<and>
        usi_staged hs (write_keys ks s) = take (length hs) (ks @ replicate (length hs) 0) \<and>
        fst (usi_transfers hs (write_keys ks s)) =
          take (length hs) (usidr s # ks @ replicate (length hs) 0)"
    if empty: "key_code_count s = 0" and len: "length ks \<le> 32"
  proof -
    have "key_code_count s + int (length ks) \<le> KEY_BUFF_SIZE" using empty len by simp
    from write_keys_contents [OF ok this]
    have w: "key_contents (write_keys ks s) = ks" "key_queue_ok (write_keys ks s)"
      "usidr (write_keys ks s) = usidr s"
      using empty by (simp_all add: key_contents_empty)
    show ?thesis
      using usi_transfers_out [OF w(2), of hs] usi_staged_out [OF w(2), of hs] w(1,3) by simp
  qed
  then show ?thesis
    using e(2,3,4) usi_transfers_out [OF ok, of hs] usi_staged_out [OF ok, of hs] by blast
qed

theorem host_responder_fifo_witness:
  "key_contents (write_keys [0x1E, 0x30, 0x2E] reset_state) = [0x1E, 0x30, 0x2E] \<and>
   usi_staged [0xA0, 0xA1, 0xA2, 0xA3, 0xA4, 0xA5] (write_keys [0x1E, 0x30, 0x2E] reset_state)
     = [0x1E, 0x30, 0x2E, 0x00, 0x00, 0x00] \<and>
   fst (usi_transfers [0xA0, 0xA1, 0xA2, 0xA3, 0xA4, 0xA5] (write_keys [0x1E, 0x30, 0x2E] reset_state))
     = [0x00, 0x1E, 0x30, 0x2E, 0x00, 0x00] \<and>
   command_in (snd (usi_transfer 0xA0 reset_state)) = 0xA0 \<and>
   usidr (snd (usi_transfer 0xA0 reset_state)) = 0x00"
proof -
  have empty: "key_code_count reset_state = 0" "usidr reset_state = 0"
    "key_contents reset_state = []"
    by (simp_all add: reset_state_def key_contents_def ring_contents_def)
  have len: "length [0x1E, 0x30, 0x2E :: uint8_t] \<le> 32" by simp
  note w = host_responder_fifo [OF key_queue_ok_reset, of "0xA0"
      "[0xA0, 0xA1, 0xA2, 0xA3, 0xA4, 0xA5]" "[0x1E, 0x30, 0x2E]"]
  from w empty(1) len
  have "key_contents (write_keys [0x1E, 0x30, 0x2E] reset_state) = [0x1E, 0x30, 0x2E]"
    and "usi_staged [0xA0, 0xA1, 0xA2, 0xA3, 0xA4, 0xA5]
            (write_keys [0x1E, 0x30, 0x2E] reset_state) =
         take (length [0xA0, 0xA1, 0xA2, 0xA3, 0xA4, 0xA5 :: uint8_t])
           ([0x1E, 0x30, 0x2E] @
            replicate (length [0xA0, 0xA1, 0xA2, 0xA3, 0xA4, 0xA5 :: uint8_t]) 0)"
    and "fst (usi_transfers [0xA0, 0xA1, 0xA2, 0xA3, 0xA4, 0xA5]
            (write_keys [0x1E, 0x30, 0x2E] reset_state)) =
         take (length [0xA0, 0xA1, 0xA2, 0xA3, 0xA4, 0xA5 :: uint8_t])
           (usidr reset_state # [0x1E, 0x30, 0x2E] @
            replicate (length [0xA0, 0xA1, 0xA2, 0xA3, 0xA4, 0xA5 :: uint8_t]) 0)"
    and "command_in (snd (usi_transfer 0xA0 reset_state)) = 0xA0"
    and "usidr (snd (usi_transfer 0xA0 reset_state)) =
         (case key_contents reset_state of [] \<Rightarrow> 0 | k # rest \<Rightarrow> k)"
    by blast+
  then show ?thesis
    by (simp add: empty(2,3))
qed

section \<open>The queue relations hold throughout\<close>

lemma PCINT0_vect_ok: "ps2_queue_ok s \<Longrightarrow> ps2_queue_ok (PCINT0_vect c d s)"
proof (cases "ps2_rx_state s = PS2_STOP \<and> ps2_scan_code_count s < PS2_BUFF_SIZE")
  case False
  assume "ps2_queue_ok s"
  then show ?thesis using False
    by (auto simp add: PCINT0_vect_def Let_def ps2_queue_ok_def split: ps2_state_t.split)
next
  case True
  assume ok: "ps2_queue_ok s"
  from ring_push_ok [OF ok [unfolded ps2_queue_ok_def], of "ps2_rx_data_byte s"] True ok
  show ?thesis
    by (simp add: PCINT0_vect_def Let_def ps2_queue_ok_def)
qed

lemma pcint_run_ok: "ps2_queue_ok s \<Longrightarrow> ps2_queue_ok (pcint_run es s)"
  by (induction es arbitrary: s) (simp_all add: PCINT0_vect_ok)

lemma ps2_recv_ok: "ps2_queue_ok s \<Longrightarrow> ps2_queue_ok (snd (ps2_recv s))"
proof (cases "0 < ps2_scan_code_count s")
  case True
  assume ok: "ps2_queue_ok s"
  from ring_pop_ok [OF ok [unfolded ps2_queue_ok_def] True] True show ?thesis
    by (simp add: ps2_recv_def ps2_queue_ok_def)
next
  case False
  assume "ps2_queue_ok s"
  then show ?thesis using False by (simp add: ps2_recv_def)
qed

lemma write_key_ok: "key_queue_ok s \<Longrightarrow> key_queue_ok (snd (write_key k s))"
proof (cases "key_code_count s < KEY_BUFF_SIZE")
  case True
  assume "key_queue_ok s"
  then show ?thesis using True by (rule write_key_contents(2))
next
  case False
  assume "key_queue_ok s"
  then show ?thesis using False by (simp add: write_key_def)
qed

lemma read_key_ok: "key_queue_ok s \<Longrightarrow> key_queue_ok (snd (read_key s))"
proof (cases "0 < key_code_count s")
  case True
  assume "key_queue_ok s"
  then show ?thesis using True by (rule read_key_contents(3))
next
  case False
  assume "key_queue_ok s"
  then show ?thesis using False by (simp add: read_key_def)
qed

lemma replicate_10: "replicate 10 x = [x, x, x, x, x, x, x, x, x, x]"
  by (simp add: numeral_eq_Suc)

section \<open>The translator, one turn of the main loop\<close>

lemma ps2_contents_nonempty: "ps2_contents s = b # rest \<Longrightarrow> 0 < ps2_scan_code_count s"
  by (cases "0 < ps2_scan_code_count s") (simp_all add: ps2_contents_def ring_contents_def)

lemma ps2_recv_contents:
  assumes "ps2_queue_ok s" and "ps2_contents s = b # rest"
  shows "fst (ps2_recv s) = uint b"
    and "ps2_contents (snd (ps2_recv s)) = rest"
    and "ps2_queue_ok (snd (ps2_recv s))"
proof -
  have pos: "0 < ps2_scan_code_count s" using assms(2) by (rule ps2_contents_nonempty)
  note c = ring_pop_contents [OF assms(1) [unfolded ps2_queue_ok_def] pos]
  show "fst (ps2_recv s) = uint b"
    using c assms(2) pos by (simp add: ps2_recv_def ps2_contents_def)
  show "ps2_contents (snd (ps2_recv s)) = rest"
    using c assms(2) pos by (simp add: ps2_recv_def ps2_contents_def)
  show "ps2_queue_ok (snd (ps2_recv s))"
    using ring_pop_ok [OF assms(1) [unfolded ps2_queue_ok_def] pos] pos
    by (simp add: ps2_recv_def ps2_queue_ok_def)
qed

lemma ps2_recv_key_queue: "key_queue (snd (ps2_recv s)) = key_queue s"
  by (simp add: ps2_recv_def key_queue_def)

lemma ps2_recv_x_ready:
  assumes "ps2_queue_ok s" and "ps2_contents s = b # rest"
  shows "ps2_recv_x s = Some (uint b, snd (ps2_recv s))"
proof -
  obtain r s1 where r: "ps2_recv s = (r, s1)" by (cases "ps2_recv s")
  then have "r = uint b" using ps2_recv_contents(1) [OF assms] by simp
  then show ?thesis
    by (subst ps2_recv_x.simps) (simp add: r uint_not_minus1)
qed

lemma ps2_recv_x_blocked:
  "ps2_scan_code_count s \<le> 0 \<Longrightarrow> irq_pending s = [] \<Longrightarrow> ps2_recv_x s = None"
  by (subst ps2_recv_x.simps) (simp add: ps2_recv_empty)

lemma ps2_contents_empty: "ps2_queue_ok s \<Longrightarrow> ps2_contents s = [] \<Longrightarrow> ps2_scan_code_count s \<le> 0"
  by (simp add: ps2_queue_ok_def ring_ok_def ps2_contents_def ring_contents_def)

lemma ps2_recv_x_starved:
  assumes "ps2_queue_ok s" and "ps2_contents s = []" and "irq_pending s = []"
  shows "ps2_recv_x s = None"
  using ps2_contents_empty [OF assms(1,2)] assms(3) by (rule ps2_recv_x_blocked)


lemma uint_eq_byte:
  "0 \<le> n \<Longrightarrow> n < 256 \<Longrightarrow> (uint (b::uint8_t) = n) = (b = word_of_int n)"
  by (auto simp add: uint_word_of_int take_bit_eq_mod)

lemma ps2_recv_eq:
  assumes "ps2_queue_ok s" and "ps2_contents s = b # rest"
  shows "ps2_recv s = (uint b, snd (ps2_recv s))"
  using ps2_recv_contents(1) [OF assms] by (metis prod.collapse)

lemma main_filter_extended:
  "b = 0x50 \<or> b = 0xD0 \<or> b = 0x4D \<or> b = 0xCD \<or> b = 0x4B \<or> b = 0xCB \<or> b = 0x48 \<or> b = 0xC8 \<Longrightarrow>
   main_filter (uint (b::uint8_t)) = Some (uint b)"
  by (auto simp add: main_filter_def unwanted_scan_code_def)

lemma main_iter_plain:
  assumes ok: "ps2_queue_ok s" and c: "ps2_contents s = b # rest"
    and b: "b \<noteq> 0xE1" "b \<noteq> 0xE0"
  shows "main_iter k s =
     Some (k, case main_filter (uint b) of
                None \<Rightarrow> snd (ps2_recv s)
              | Some code \<Rightarrow> snd (write_key (word_of_int code) (snd (ps2_recv s))))"
proof -
  obtain s1 where r: "ps2_recv s = (uint b, s1)"
    using ps2_recv_eq [OF ok c] by blast
  have ne: "uint b \<noteq> 0xe1" "uint b \<noteq> 0xe0"
    using b by (simp_all add: uint_eq_byte)
  show ?thesis
    by (simp add: main_iter_def r uint_not_minus1 main_pause_break_def main_extended_def ne
        split: option.split)
qed

lemma main_iter_extended:
  assumes ok: "ps2_queue_ok s" and c: "ps2_contents s = 0xE0 # b # rest"
  shows "main_iter k s =
     Some (k, if b = 0x50 \<or> b = 0xD0 \<or> b = 0x4D \<or> b = 0xCD \<or>
                 b = 0x4B \<or> b = 0xCB \<or> b = 0x48 \<or> b = 0xC8
              then snd (write_key b (snd (ps2_recv (snd (ps2_recv s)))))
              else snd (ps2_recv (snd (ps2_recv s))))"
proof -
  obtain s1 where r: "ps2_recv s = (uint (0xE0 :: uint8_t), s1)"
    using ps2_recv_eq [OF ok c] by blast
  then have s1: "s1 = snd (ps2_recv s)" by simp
  have ok1: "ps2_queue_ok s1" and c1: "ps2_contents s1 = b # rest"
    using ps2_recv_contents(2,3) [OF ok c] s1 by simp_all
  have x: "ps2_recv_x s1 = Some (uint b, snd (ps2_recv s1))"
    using ok1 c1 by (rule ps2_recv_x_ready)
  have keep: "(uint b = 0x50 \<or> uint b = 0xd0 \<or> uint b = 0x4d \<or> uint b = 0xcd \<or>
      uint b = 0x4b \<or> uint b = 0xcb \<or> uint b = 0x48 \<or> uint b = 0xc8) =
     (b = 0x50 \<or> b = 0xD0 \<or> b = 0x4D \<or> b = 0xCD \<or>
      b = 0x4B \<or> b = 0xCB \<or> b = 0x48 \<or> b = 0xC8)"
    by (simp add: uint_eq_byte)
  show ?thesis
  proof (cases "b = 0x50 \<or> b = 0xD0 \<or> b = 0x4D \<or> b = 0xCD \<or>
                 b = 0x4B \<or> b = 0xCB \<or> b = 0x48 \<or> b = 0xC8")
    case True
    then have f: "main_filter (uint b) = Some (uint b)" by (rule main_filter_extended)
    have "main_extended 0xe0 s1 = Some (Some (uint b), snd (ps2_recv s1))"
      using True keep by (simp add: main_extended_def x)
    then show ?thesis
      using True r by (simp add: main_iter_def main_pause_break_def f s1 [symmetric])
  next
    case False
    then have "main_extended 0xe0 s1 = Some (None, snd (ps2_recv s1))"
      using keep by (simp add: main_extended_def x)
    then show ?thesis
      using False r by (simp add: main_iter_def main_pause_break_def s1 [symmetric])
  qed
qed


lemma scan_state_ok:
  assumes "length bs \<le> 32"
  shows "ps2_queue_ok (scan_state bs)" and "ps2_contents (scan_state bs) = bs"
    and "key_queue_ok (scan_state bs)" and "key_contents (scan_state bs) = []"
    and "key_code_count (scan_state bs) = 0"
proof -
  show "ps2_queue_ok (scan_state bs)"
    using assms by (simp add: ps2_queue_ok_def ring_ok_def scan_state_def reset_state_def)
  have "map (\<lambda>i. (bs @ replicate (32 - length bs) 0) ! (i mod 32)) [0..<length bs] = bs"
    using assms by (intro nth_equalityI) (simp_all add: nth_append)
  then show "ps2_contents (scan_state bs) = bs"
    by (simp add: ps2_contents_def ring_contents_def scan_state_def reset_state_def)
  show "key_queue_ok (scan_state bs)"
    by (simp add: key_queue_ok_def ring_ok_def scan_state_def reset_state_def)
  show "key_contents (scan_state bs) = []"
    by (simp add: key_contents_def ring_contents_def scan_state_def reset_state_def)
  show "key_code_count (scan_state bs) = 0"
    by (simp add: scan_state_def reset_state_def)
qed

lemma key_queue_eq:
  assumes "key_queue t = key_queue s"
  shows "key_contents t = key_contents s" and "key_queue_ok t = key_queue_ok s"
    and "key_code_count t = key_code_count s"
  using assms by (simp_all add: key_queue_def key_contents_def key_queue_ok_def)

lemma write_key_ps2:
  "ps2_contents (snd (write_key k s)) = ps2_contents s"
  "ps2_queue_ok (snd (write_key k s)) = ps2_queue_ok s"
  by (simp_all add: write_key_def ps2_contents_def ps2_queue_ok_def)

lemma ps2_recv2:
  assumes ok: "ps2_queue_ok s" and c: "ps2_contents s = a # b # rest"
  shows "ps2_contents (snd (ps2_recv (snd (ps2_recv s)))) = rest"
    and "ps2_queue_ok (snd (ps2_recv (snd (ps2_recv s))))"
    and "key_queue (snd (ps2_recv (snd (ps2_recv s)))) = key_queue s"
proof -
  note one = ps2_recv_contents(2,3) [OF ok c]
  show "ps2_contents (snd (ps2_recv (snd (ps2_recv s)))) = rest"
    using ps2_recv_contents(2) [OF one(2) one(1)] .
  show "ps2_queue_ok (snd (ps2_recv (snd (ps2_recv s))))"
    using ps2_recv_contents(3) [OF one(2) one(1)] .
  show "key_queue (snd (ps2_recv (snd (ps2_recv s)))) = key_queue s"
    by (simp add: ps2_recv_key_queue)
qed

text \<open>
  C6. With the bytes \<open>0xE0\<close>, \<open>b\<close> at the head of the scan-code queue, one turn of the
  main loop consumes both and calls \<open>write_key\<close> once, with \<open>b\<close>, exactly when \<open>b\<close> is
  one of the eight codes \<open>0x50 0xD0 0x4D 0xCD 0x4B 0xCB 0x48 0xC8\<close>; every other \<open>b\<close>
  is dropped and the key-code queue stays as it was. With room in the key-code queue
  the kept code is its one new entry. So \<open>[0xE0, 0x50]\<close> gives one output code and
  \<open>[0xE0, 0x1C]\<close> none. The pull of \<open>b\<close> blocks: with \<open>b\<close> missing and no interrupt to
  deliver it the turn never ends.
\<close>

theorem extended_allow_list:
  assumes ok: "ps2_queue_ok s"
  shows "(ps2_contents s = 0xE0 # b # rest \<longrightarrow>
          (\<exists>s'. main_iter k s = Some (k, s') \<and>
             s' = (if b = 0x50 \<or> b = 0xD0 \<or> b = 0x4D \<or> b = 0xCD \<or>
                      b = 0x4B \<or> b = 0xCB \<or> b = 0x48 \<or> b = 0xC8
                   then snd (write_key b (snd (ps2_recv (snd (ps2_recv s)))))
                   else snd (ps2_recv (snd (ps2_recv s)))) \<and>
             ps2_contents s' = rest \<and> ps2_queue_ok s' \<and>
             (key_queue_ok s \<and> key_code_count s < KEY_BUFF_SIZE \<longrightarrow>
                key_contents s' =
                  key_contents s @
                    (if b = 0x50 \<or> b = 0xD0 \<or> b = 0x4D \<or> b = 0xCD \<or>
                        b = 0x4B \<or> b = 0xCB \<or> b = 0x48 \<or> b = 0xC8
                     then [b] else [])) \<and>
             (\<not> (b = 0x50 \<or> b = 0xD0 \<or> b = 0x4D \<or> b = 0xCD \<or>
                  b = 0x4B \<or> b = 0xCB \<or> b = 0x48 \<or> b = 0xC8) \<longrightarrow>
                key_queue s' = key_queue s))) \<and>
         (ps2_contents s = [0xE0] \<and> irq_pending s = [] \<longrightarrow> main_iter k s = None)"
proof (intro conjI impI)
  assume c: "ps2_contents s = 0xE0 # b # rest"
  let ?keep = "b = 0x50 \<or> b = 0xD0 \<or> b = 0x4D \<or> b = 0xCD \<or>
               b = 0x4B \<or> b = 0xCB \<or> b = 0x48 \<or> b = 0xC8"
  let ?s2 = "snd (ps2_recv (snd (ps2_recv s)))"
  note p = ps2_recv2 [OF ok c]
  note k2 = key_queue_eq [OF p(3)]
  show "\<exists>s'. main_iter k s = Some (k, s') \<and>
             s' = (if ?keep then snd (write_key b ?s2) else ?s2) \<and>
             ps2_contents s' = rest \<and> ps2_queue_ok s' \<and>
             (key_queue_ok s \<and> key_code_count s < KEY_BUFF_SIZE \<longrightarrow>
                key_contents s' = key_contents s @ (if ?keep then [b] else [])) \<and>
             (\<not> ?keep \<longrightarrow> key_queue s' = key_queue s)"
  proof (cases ?keep)
    case True
    have "key_contents (snd (write_key b ?s2)) = key_contents s @ [b]"
      if "key_queue_ok s" "key_code_count s < KEY_BUFF_SIZE"
      using write_key_contents(1) [of ?s2 b] that k2 by simp
    then show ?thesis
      using True main_iter_extended [OF ok c, of k] p(1,2) by (simp add: write_key_ps2)
  next
    case False
    then show ?thesis
      using main_iter_extended [OF ok c, of k] p k2(1) by simp
  qed
next
  assume a: "ps2_contents s = [0xE0] \<and> irq_pending s = []"
  then have c: "ps2_contents s = [0xE0]" and irq: "irq_pending s = []" by simp_all
  obtain s1 where r: "ps2_recv s = (uint (0xE0 :: uint8_t), s1)"
    using ps2_recv_eq [OF ok c] by blast
  then have s1: "s1 = snd (ps2_recv s)" by simp
  have "irq_pending s1 = []"
    using irq by (simp add: s1 irq_pending_ps2_recv)
  then have "ps2_recv_x s1 = None"
    using ps2_recv_contents(2,3) [OF ok c] s1 by (intro ps2_recv_x_starved) simp_all
  then have "main_extended 0xe0 s1 = None"
    by (simp add: main_extended_def)
  then show "main_iter k s = None"
    using r by (simp add: main_iter_def main_pause_break_def)
qed

theorem extended_allow_list_witness:
  "main_iter 0 (scan_state [0xE0, 0x50]) =
     Some (0, snd (write_key 0x50 (snd (ps2_recv (snd (ps2_recv (scan_state [0xE0, 0x50]))))))) \<and>
   key_contents (snd (write_key 0x50 (snd (ps2_recv (snd (ps2_recv (scan_state [0xE0, 0x50]))))))) =
     [0x50] \<and>
   main_iter 0 (scan_state [0xE0, 0x1C]) =
     Some (0, snd (ps2_recv (snd (ps2_recv (scan_state [0xE0, 0x1C]))))) \<and>
   key_contents (snd (ps2_recv (snd (ps2_recv (scan_state [0xE0, 0x1C]))))) = [] \<and>
   main_iter 0 (scan_state [0xE0]) = None"
proof -
  have len: "length [0xE0, 0x50 :: uint8_t] \<le> 32" "length [0xE0, 0x1C :: uint8_t] \<le> 32"
    "length [0xE0 :: uint8_t] \<le> 32"
    by simp_all
  note a = scan_state_ok [OF len(1)]
  note b = scan_state_ok [OF len(2)]
  note c = scan_state_ok [OF len(3)]
  have room: "key_code_count (scan_state [0xE0, 0x50]) < KEY_BUFF_SIZE"
    "key_code_count (scan_state [0xE0, 0x1C]) < KEY_BUFF_SIZE"
    using a(5) b(5) by simp_all
  have irq: "irq_pending (scan_state [0xE0]) = []"
    by (simp add: scan_state_def reset_state_def)
  from extended_allow_list [OF a(1), of "0x50" "[]" 0] a(2) a(3) room(1)
  have "main_iter 0 (scan_state [0xE0, 0x50]) =
     Some (0, snd (write_key 0x50 (snd (ps2_recv (snd (ps2_recv (scan_state [0xE0, 0x50]))))))) \<and>
   key_contents (snd (write_key 0x50 (snd (ps2_recv (snd (ps2_recv (scan_state [0xE0, 0x50]))))))) =
     [0x50]"
    by (simp add: a(4))
  moreover from extended_allow_list [OF b(1), of "0x1C" "[]" 0] b(2) b(3) room(2)
  have "main_iter 0 (scan_state [0xE0, 0x1C]) =
     Some (0, snd (ps2_recv (snd (ps2_recv (scan_state [0xE0, 0x1C]))))) \<and>
   key_contents (snd (ps2_recv (snd (ps2_recv (scan_state [0xE0, 0x1C]))))) = []"
    by (simp add: b(4))
  moreover from extended_allow_list [OF c(1), of "0x50" "[]" 0] c(2) irq
  have "main_iter 0 (scan_state [0xE0]) = None"
    by simp
  ultimately show ?thesis by blast
qed


lemma main_filter_discard:
  assumes "unwanted_scan_code (uint b AND 0x7f) \<or> uint b AND 0x7f > PS2_LAST_CODE \<or> b = 0"
  shows "main_filter (uint (b::uint8_t)) = None"
  using assms by (auto simp add: main_filter_def)

lemma kept_not_discarded:
  assumes "b = 0x50 \<or> b = 0xD0 \<or> b = 0x4D \<or> b = 0xCD \<or> b = 0x4B \<or> b = 0xCB \<or> b = 0x48 \<or> b = 0xC8"
  shows "\<not> (unwanted_scan_code (uint b AND 0x7f) \<or> uint b AND 0x7f > PS2_LAST_CODE \<or>
            (b::uint8_t) = 0)"
  using assms by (auto simp add: unwanted_scan_code_def)

text \<open>
  C7. A scan code \<open>b\<close> whose low seven bits are a label of the discard \<open>switch\<close>, or
  exceed \<open>0x50\<close>, or that is 0 altogether, produces no output: the turn of the main loop
  consumes it and leaves the key-code queue untouched, both when \<open>b\<close> stands alone (it
  is then not one of the lead bytes \<open>0xE0\<close>, \<open>0xE1\<close>) and when it follows \<open>0xE0\<close>.
  So \<open>0x0F\<close> and \<open>0x8F\<close> (Tab, make and break) produce nothing.
\<close>

theorem unwanted_codes_discarded:
  assumes ok: "ps2_queue_ok s"
    and d: "unwanted_scan_code (uint b AND 0x7f) \<or> uint b AND 0x7f > PS2_LAST_CODE \<or> b = 0"
  shows "(ps2_contents s = b # rest \<and> b \<noteq> 0xE0 \<and> b \<noteq> 0xE1 \<longrightarrow>
            main_iter k s = Some (k, snd (ps2_recv s)) \<and>
            ps2_contents (snd (ps2_recv s)) = rest \<and>
            key_queue (snd (ps2_recv s)) = key_queue s) \<and>
         (ps2_contents s = 0xE0 # b # rest \<longrightarrow>
            main_iter k s = Some (k, snd (ps2_recv (snd (ps2_recv s)))) \<and>
            ps2_contents (snd (ps2_recv (snd (ps2_recv s)))) = rest \<and>
            key_queue (snd (ps2_recv (snd (ps2_recv s)))) = key_queue s)"
proof (intro conjI impI)
  assume a: "ps2_contents s = b # rest \<and> b \<noteq> 0xE0 \<and> b \<noteq> 0xE1"
  then have c: "ps2_contents s = b # rest" and b: "b \<noteq> 0xE1" "b \<noteq> 0xE0" by simp_all
  show "main_iter k s = Some (k, snd (ps2_recv s))"
    using main_iter_plain [OF ok c b, of k] main_filter_discard [OF d] by simp
  show "ps2_contents (snd (ps2_recv s)) = rest"
    using ps2_recv_contents(2) [OF ok c] .
  show "key_queue (snd (ps2_recv s)) = key_queue s"
    by (rule ps2_recv_key_queue)
next
  assume c: "ps2_contents s = 0xE0 # b # rest"
  have "\<not> (b = 0x50 \<or> b = 0xD0 \<or> b = 0x4D \<or> b = 0xCD \<or> b = 0x4B \<or> b = 0xCB \<or>
           b = 0x48 \<or> b = 0xC8)"
    using kept_not_discarded [of b] d by blast
  then show "main_iter k s = Some (k, snd (ps2_recv (snd (ps2_recv s))))"
    using main_iter_extended [OF ok c, of k] by simp
  show "ps2_contents (snd (ps2_recv (snd (ps2_recv s)))) = rest"
    using ps2_recv2(1) [OF ok c] .
  show "key_queue (snd (ps2_recv (snd (ps2_recv s)))) = key_queue s"
    using ps2_recv2(3) [OF ok c] .
qed

theorem unwanted_codes_discarded_witness:
  "main_iter 0 (scan_state [0x0F]) = Some (0, snd (ps2_recv (scan_state [0x0F]))) \<and>
   key_queue (snd (ps2_recv (scan_state [0x0F]))) = key_queue (scan_state [0x0F]) \<and>
   main_iter 0 (scan_state [0x8F]) = Some (0, snd (ps2_recv (scan_state [0x8F]))) \<and>
   key_queue (snd (ps2_recv (scan_state [0x8F]))) = key_queue (scan_state [0x8F]) \<and>
   main_iter 0 (scan_state [0xE0, 0x1D]) =
     Some (0, snd (ps2_recv (snd (ps2_recv (scan_state [0xE0, 0x1D]))))) \<and>
   main_iter 0 (scan_state [0x54]) = Some (0, snd (ps2_recv (scan_state [0x54]))) \<and>
   main_iter 0 (scan_state [0x00]) = Some (0, snd (ps2_recv (scan_state [0x00])))"
proof -
  have len: "length [0x0F :: uint8_t] \<le> 32" "length [0x8F :: uint8_t] \<le> 32"
    "length [0xE0, 0x1D :: uint8_t] \<le> 32" "length [0x54 :: uint8_t] \<le> 32"
    "length [0x00 :: uint8_t] \<le> 32"
    by simp_all
  have d: "unwanted_scan_code (uint (0x0F :: uint8_t) AND 0x7f) \<or>
           uint (0x0F :: uint8_t) AND 0x7f > PS2_LAST_CODE \<or> (0x0F :: uint8_t) = 0"
    "unwanted_scan_code (uint (0x8F :: uint8_t) AND 0x7f) \<or>
           uint (0x8F :: uint8_t) AND 0x7f > PS2_LAST_CODE \<or> (0x8F :: uint8_t) = 0"
    "unwanted_scan_code (uint (0x1D :: uint8_t) AND 0x7f) \<or>
           uint (0x1D :: uint8_t) AND 0x7f > PS2_LAST_CODE \<or> (0x1D :: uint8_t) = 0"
    "unwanted_scan_code (uint (0x54 :: uint8_t) AND 0x7f) \<or>
           uint (0x54 :: uint8_t) AND 0x7f > PS2_LAST_CODE \<or> (0x54 :: uint8_t) = 0"
    "unwanted_scan_code (uint (0x00 :: uint8_t) AND 0x7f) \<or>
           uint (0x00 :: uint8_t) AND 0x7f > PS2_LAST_CODE \<or> (0x00 :: uint8_t) = 0"
    by (simp_all add: unwanted_scan_code_def)
  note a = unwanted_codes_discarded [OF scan_state_ok(1) [OF len(1)] d(1), of "[]" 0]
  note b = unwanted_codes_discarded [OF scan_state_ok(1) [OF len(2)] d(2), of "[]" 0]
  note c = unwanted_codes_discarded [OF scan_state_ok(1) [OF len(3)] d(3), of "[]" 0]
  note e = unwanted_codes_discarded [OF scan_state_ok(1) [OF len(4)] d(4), of "[]" 0]
  note f = unwanted_codes_discarded [OF scan_state_ok(1) [OF len(5)] d(5), of "[]" 0]
  show ?thesis
    using a b c e f scan_state_ok(2) [OF len(1)] scan_state_ok(2) [OF len(2)]
      scan_state_ok(2) [OF len(3)] scan_state_ok(2) [OF len(4)] scan_state_ok(2) [OF len(5)]
    by simp
qed


lemma and_exp_word: "(a::'a::len word) AND 2 ^ n = (if bit a n then 2 ^ n else 0)"
  by (rule bit_word_eqI) (auto simp add: bit_simps)

lemma and_0x80: "(b::uint8_t) AND 0x80 = 0 \<or> b AND 0x80 = 0x80"
  using and_exp_word [of b 7] by (simp split: if_splits)

lemma and_0xff: "(b::uint8_t) AND 255 = b"
proof -
  have "(255 :: uint8_t) = - 1" by simp
  then show ?thesis by (simp only: and.right_neutral word_bw_same bit.conj_one_right)
qed

lemma low7_54:
  assumes "(b::uint8_t) AND 0x7f = 54"
  shows "b = 0x36 \<or> b = 0xB6"
proof -
  have "(b AND 0x7f) OR (b AND 0x80) = b AND (0x7f OR 0x80)"
    by (simp only: bit.conj_disj_distrib)
  also have "\<dots> = b" by (simp add: and_0xff)
  finally have split: "b = (b AND 0x7f) OR (b AND 0x80)" by simp
  from and_0x80 [of b] show ?thesis
  proof
    assume "b AND 0x80 = 0"
    then have "b = 54" using split assms by simp
    then show ?thesis by simp
  next
    assume "b AND 0x80 = 0x80"
    then have "b = 54 OR 0x80" using split assms by simp
    then show ?thesis by simp
  qed
qed

lemma main_filter_54:
  "main_filter 0x36 = Some 0x2A"
  "main_filter 0xB6 = Some 0xAA"
  by (simp_all add: main_filter_def unwanted_scan_code_def)

text \<open>
  C8. A single scan code \<open>b\<close> whose low seven bits are 54 is handed to \<open>write_key\<close> as
  \<open>(b AND 0x80) + 42\<close>: code 42 with bit 7 of \<open>b\<close>. There are two such bytes: \<open>0x36\<close>
  becomes \<open>0x2A\<close> and \<open>0xB6\<close> becomes \<open>0xAA\<close>.
\<close>

theorem keypad_slash_remap:
  assumes ok: "ps2_queue_ok s" and c: "ps2_contents s = b # rest"
    and low: "b AND 0x7f = 54"
  shows "main_iter k s = Some (k, snd (write_key ((b AND 0x80) + 42) (snd (ps2_recv s)))) \<and>
         ((b AND 0x80) + 42) AND 0x7f = 42 \<and>
         ((b AND 0x80) + 42) AND 0x80 = b AND 0x80 \<and>
         (b = 0x36 \<and> (b AND 0x80) + 42 = 0x2A \<or> b = 0xB6 \<and> (b AND 0x80) + 42 = 0xAA) \<and>
         ps2_contents (snd (write_key ((b AND 0x80) + 42) (snd (ps2_recv s)))) = rest \<and>
         (key_queue_ok s \<and> key_code_count s < KEY_BUFF_SIZE \<longrightarrow>
            key_contents (snd (write_key ((b AND 0x80) + 42) (snd (ps2_recv s)))) =
              key_contents s @ [(b AND 0x80) + 42])"
proof -
  let ?s1 = "snd (ps2_recv s)"
  note k1 = key_queue_eq [OF ps2_recv_key_queue [of s]]
  have queue: "key_contents (snd (write_key key ?s1)) = key_contents s @ [key]"
    if "key_queue_ok s" "key_code_count s < KEY_BUFF_SIZE" for key
    using write_key_contents(1) [of ?s1 key] that k1 by simp
  have rest: "ps2_contents (snd (write_key key ?s1)) = rest" for key
    using ps2_recv_contents(2) [OF ok c] by (simp add: write_key_ps2)
  from low7_54 [OF low] show ?thesis
  proof
    assume b: "b = 0x36"
    then have "main_iter k s = Some (k, snd (write_key 0x2A ?s1))"
      using main_iter_plain [OF ok c, of k] by (simp add: main_filter_54)
    then show ?thesis using b queue [of "0x2A"] rest [of "0x2A"] by simp
  next
    assume b: "b = 0xB6"
    then have "main_iter k s = Some (k, snd (write_key 0xAA ?s1))"
      using main_iter_plain [OF ok c, of k] by (simp add: main_filter_54)
    then show ?thesis using b queue [of "0xAA"] rest [of "0xAA"] by simp
  qed
qed

theorem keypad_slash_remap_witness:
  "main_iter 0 (scan_state [0x36]) =
     Some (0, snd (write_key 0x2A (snd (ps2_recv (scan_state [0x36]))))) \<and>
   key_contents (snd (write_key 0x2A (snd (ps2_recv (scan_state [0x36]))))) = [0x2A] \<and>
   main_iter 0 (scan_state [0xB6]) =
     Some (0, snd (write_key 0xAA (snd (ps2_recv (scan_state [0xB6]))))) \<and>
   key_contents (snd (write_key 0xAA (snd (ps2_recv (scan_state [0xB6]))))) = [0xAA]"
proof -
  have len: "length [0x36 :: uint8_t] \<le> 32" "length [0xB6 :: uint8_t] \<le> 32"
    by simp_all
  have low: "(0x36 :: uint8_t) AND 0x7f = 54" "(0xB6 :: uint8_t) AND 0x7f = 54"
    by simp_all
  note a = scan_state_ok [OF len(1)]
  note b = scan_state_ok [OF len(2)]
  have room: "key_code_count (scan_state [0x36]) < KEY_BUFF_SIZE"
    "key_code_count (scan_state [0xB6]) < KEY_BUFF_SIZE"
    using a(5) b(5) by simp_all
  from keypad_slash_remap [OF a(1) a(2) low(1), of 0] a(3) room(1)
  have "main_iter 0 (scan_state [0x36]) =
     Some (0, snd (write_key 0x2A (snd (ps2_recv (scan_state [0x36]))))) \<and>
   key_contents (snd (write_key 0x2A (snd (ps2_recv (scan_state [0x36]))))) = [0x2A]"
    by (simp add: a(4))
  moreover from keypad_slash_remap [OF b(1) b(2) low(2), of 0] b(3) room(2)
  have "main_iter 0 (scan_state [0xB6]) =
     Some (0, snd (write_key 0xAA (snd (ps2_recv (scan_state [0xB6]))))) \<and>
   key_contents (snd (write_key 0xAA (snd (ps2_recv (scan_state [0xB6]))))) = [0xAA]"
    by (simp add: b(4))
  ultimately show ?thesis by blast
qed


lemma main_pause_break_lead:
  assumes ok: "ps2_queue_ok s1" and c: "ps2_contents s1 = b # rest"
  shows "main_pause_break 0xe1 s1 =
     (if b = 0x1D \<or> b = 0x9D then
        (case ps2_recv_x (snd (ps2_recv s1)) of
           None \<Rightarrow> None
         | Some (x, s3) \<Rightarrow> Some (None, s3))
      else Some (Some (uint b), snd (ps2_recv s1)))"
proof -
  have x: "ps2_recv_x s1 = Some (uint b, snd (ps2_recv s1))"
    using ok c by (rule ps2_recv_x_ready)
  show ?thesis
    by (auto simp add: main_pause_break_def x uint_eq_byte split: option.split)
qed

lemma main_iter_pause:
  assumes ok: "ps2_queue_ok s" and c: "ps2_contents s = 0xE1 # b # c # rest"
    and b: "b = 0x1D \<or> b = 0x9D"
  shows "main_iter k s = Some (k, snd (ps2_recv (snd (ps2_recv (snd (ps2_recv s))))))"
proof -
  obtain s1 where r: "ps2_recv s = (uint (0xE1 :: uint8_t), s1)"
    using ps2_recv_eq [OF ok c] by blast
  then have s1: "s1 = snd (ps2_recv s)" by simp
  have ok1: "ps2_queue_ok s1" and c1: "ps2_contents s1 = b # c # rest"
    using ps2_recv_contents(2,3) [OF ok c] s1 by simp_all
  have ok2: "ps2_queue_ok (snd (ps2_recv s1))"
    and c2: "ps2_contents (snd (ps2_recv s1)) = c # rest"
    using ps2_recv_contents(2,3) [OF ok1 c1] by simp_all
  have x: "ps2_recv_x (snd (ps2_recv s1)) = Some (uint c, snd (ps2_recv (snd (ps2_recv s1))))"
    using ok2 c2 by (rule ps2_recv_x_ready)
  have "main_pause_break 0xe1 s1 = Some (None, snd (ps2_recv (snd (ps2_recv s1))))"
    using main_pause_break_lead [OF ok1 c1] b by (simp add: x)
  then show ?thesis
    using r by (simp add: main_iter_def s1 [symmetric])
qed

lemma main_iter_lead_other:
  assumes ok: "ps2_queue_ok s" and c: "ps2_contents s = 0xE1 # b # rest"
    and b: "b \<noteq> 0x1D" "b \<noteq> 0x9D" "b \<noteq> 0xE0"
  shows "main_iter k s =
     Some (k, case main_filter (uint b) of
                None \<Rightarrow> snd (ps2_recv (snd (ps2_recv s)))
              | Some code \<Rightarrow>
                  snd (write_key (word_of_int code) (snd (ps2_recv (snd (ps2_recv s))))))"
proof -
  obtain s1 where r: "ps2_recv s = (uint (0xE1 :: uint8_t), s1)"
    using ps2_recv_eq [OF ok c] by blast
  then have s1: "s1 = snd (ps2_recv s)" by simp
  have ok1: "ps2_queue_ok s1" and c1: "ps2_contents s1 = b # rest"
    using ps2_recv_contents(2,3) [OF ok c] s1 by simp_all
  have ne: "uint b \<noteq> 0xe0" using b(3) by (simp add: uint_eq_byte)
  have "main_pause_break 0xe1 s1 = Some (Some (uint b), snd (ps2_recv s1))"
    using main_pause_break_lead [OF ok1 c1] b by simp
  then show ?thesis
    using r by (simp add: main_iter_def main_extended_def ne s1 [symmetric] split: option.split)
qed

lemma main_iter_pause_starved:
  assumes ok: "ps2_queue_ok s" and irq: "irq_pending s = []"
    and b: "b = 0x1D \<or> b = 0x9D"
  shows "ps2_contents s = [0xE1, b] \<Longrightarrow> main_iter k s = None"
    and "ps2_contents s = [0xE1] \<Longrightarrow> main_iter k s = None"
proof -
  assume c: "ps2_contents s = [0xE1, b]"
  obtain s1 where r: "ps2_recv s = (uint (0xE1 :: uint8_t), s1)"
    using ps2_recv_eq [OF ok c] by blast
  then have s1: "s1 = snd (ps2_recv s)" by simp
  have ok1: "ps2_queue_ok s1" and c1: "ps2_contents s1 = [b]"
    using ps2_recv_contents(2,3) [OF ok c] s1 by simp_all
  have "irq_pending (snd (ps2_recv s1)) = []"
    using irq by (simp add: s1 irq_pending_ps2_recv)
  then have "ps2_recv_x (snd (ps2_recv s1)) = None"
    using ps2_recv_contents(2,3) [OF ok1 c1] by (intro ps2_recv_x_starved)
  then have "main_pause_break 0xe1 s1 = None"
    using main_pause_break_lead [OF ok1 c1] b by simp
  then show "main_iter k s = None"
    using r by (simp add: main_iter_def)
next
  assume c: "ps2_contents s = [0xE1]"
  obtain s1 where r: "ps2_recv s = (uint (0xE1 :: uint8_t), s1)"
    using ps2_recv_eq [OF ok c] by blast
  then have s1: "s1 = snd (ps2_recv s)" by simp
  have "irq_pending s1 = []"
    using irq by (simp add: s1 irq_pending_ps2_recv)
  then have "ps2_recv_x s1 = None"
    using ps2_recv_contents(2,3) [OF ok c] s1 by (intro ps2_recv_x_starved) simp_all
  then have "main_pause_break 0xe1 s1 = None"
    by (simp add: main_pause_break_def)
  then show "main_iter k s = None"
    using r by (simp add: main_iter_def)
qed


text \<open>
  The lead byte \<open>0xE1\<close> does not discard unconditionally: followed by \<open>0x1E\<close>, which is
  neither \<open>0x1D\<close> nor \<open>0x9D\<close>, only two bytes are consumed, the third stays in the
  queue, and \<open>0x1E\<close> is written to the key-code queue.
\<close>

theorem pause_break_counterexample:
  "main_iter 0 (scan_state [0xE1, 0x1E, 0x1F]) =
     Some (0, snd (write_key 0x1E (snd (ps2_recv (snd (ps2_recv (scan_state [0xE1, 0x1E, 0x1F]))))))) \<and>
   key_contents (snd (write_key 0x1E (snd (ps2_recv (snd (ps2_recv (scan_state [0xE1, 0x1E, 0x1F]))))))) =
     [0x1E] \<and>
   ps2_contents (snd (write_key 0x1E (snd (ps2_recv (snd (ps2_recv (scan_state [0xE1, 0x1E, 0x1F]))))))) =
     [0x1F]"
proof -
  let ?s = "scan_state [0xE1, 0x1E, 0x1F]"
  let ?s2 = "snd (ps2_recv (snd (ps2_recv ?s)))"
  have len: "length [0xE1, 0x1E, 0x1F :: uint8_t] \<le> 32" by simp
  note a = scan_state_ok [OF len]
  have f: "main_filter 0x1E = Some 0x1E"
    by (simp add: main_filter_def unwanted_scan_code_def)
  have "main_iter 0 ?s = Some (0, snd (write_key 0x1E ?s2))"
    using main_iter_lead_other [OF a(1) a(2), of 0] by (simp add: f)
  moreover have "ps2_contents (snd (write_key 0x1E ?s2)) = [0x1F]"
    using ps2_recv2(1) [OF a(1) a(2)] by (simp add: write_key_ps2)
  moreover have "key_contents (snd (write_key 0x1E ?s2)) = [0x1E]"
  proof -
    note k2 = key_queue_eq [OF ps2_recv2(3) [OF a(1) a(2)]]
    have "key_queue_ok ?s2" "key_code_count ?s2 < KEY_BUFF_SIZE"
      using k2 a(3,5) by simp_all
    from write_key_contents(1) [OF this, of "0x1E"] show ?thesis
      using k2(1) a(4) by simp
  qed
  ultimately show ?thesis by blast
qed

text \<open>
  C3, as the code has it. After the lead byte \<open>0xE1\<close> the loop pulls one further byte,
  blocking; when that byte is \<open>0x1D\<close> or \<open>0x9D\<close> it pulls a third, blocking, and
  discards all three with no output, whatever the third byte is. With the further bytes
  missing and no interrupt to deliver them the turn never ends; in \<open>pause_state\<close> they
  arrive as pin-change interrupts while the loop waits, and are discarded as well.
\<close>

theorem pause_break_discarded:
  assumes ok: "ps2_queue_ok s" and b: "b = 0x1D \<or> b = 0x9D"
  shows "(ps2_contents s = 0xE1 # b # c # rest \<longrightarrow>
            main_iter k s = Some (k, snd (ps2_recv (snd (ps2_recv (snd (ps2_recv s)))))) \<and>
            ps2_contents (snd (ps2_recv (snd (ps2_recv (snd (ps2_recv s)))))) = rest \<and>
            key_queue (snd (ps2_recv (snd (ps2_recv (snd (ps2_recv s)))))) = key_queue s) \<and>
         (ps2_contents s = [0xE1, b] \<and> irq_pending s = [] \<longrightarrow> main_iter k s = None) \<and>
         (ps2_contents s = [0xE1] \<and> irq_pending s = [] \<longrightarrow> main_iter k s = None)"
proof (intro conjI impI)
  assume c: "ps2_contents s = 0xE1 # b # c # rest"
  show "main_iter k s = Some (k, snd (ps2_recv (snd (ps2_recv (snd (ps2_recv s))))))"
    using ok c b by (rule main_iter_pause)
  have ok1: "ps2_queue_ok (snd (ps2_recv s))"
    and c1: "ps2_contents (snd (ps2_recv s)) = b # c # rest"
    using ps2_recv_contents(2,3) [OF ok c] by simp_all
  show "ps2_contents (snd (ps2_recv (snd (ps2_recv (snd (ps2_recv s)))))) = rest"
    using ps2_recv2(1) [OF ok1 c1] .
  show "key_queue (snd (ps2_recv (snd (ps2_recv (snd (ps2_recv s)))))) = key_queue s"
    by (simp add: ps2_recv_key_queue)
next
  assume "ps2_contents s = [0xE1, b] \<and> irq_pending s = []"
  then show "main_iter k s = None"
    using main_iter_pause_starved(1) [OF ok _ b] by blast
next
  assume "ps2_contents s = [0xE1] \<and> irq_pending s = []"
  then show "main_iter k s = None"
    using main_iter_pause_starved(2) [OF ok _ b] by blast
qed

theorem pause_break_discarded_witness:
  "main_iter 0 (scan_state [0xE1, 0x1D, 0x45]) =
     Some (0, snd (ps2_recv (snd (ps2_recv (snd (ps2_recv (scan_state [0xE1, 0x1D, 0x45]))))))) \<and>
   key_queue (snd (ps2_recv (snd (ps2_recv (snd (ps2_recv (scan_state [0xE1, 0x1D, 0x45]))))))) =
     key_queue (scan_state [0xE1, 0x1D, 0x45]) \<and>
   main_iter 0 (scan_state [0xE1, 0x9D, 0xC5]) =
     Some (0, snd (ps2_recv (snd (ps2_recv (snd (ps2_recv (scan_state [0xE1, 0x9D, 0xC5]))))))) \<and>
   main_iter 0 (scan_state [0xE1, 0x1D]) = None \<and>
   main_iter 0 (scan_state [0xE1]) = None \<and>
   map_option (\<lambda>r. (ps2_scan_code_count (snd r), key_code_count (snd r),
       irq_pending (snd r))) (main_iter 0 pause_state) =
     Some (0, 0, map (\<lambda>e. PCINT0 (fst e) (snd e)) frame_1C)"
proof -
  have len: "length [0xE1, 0x1D, 0x45 :: uint8_t] \<le> 32"
    "length [0xE1, 0x9D, 0xC5 :: uint8_t] \<le> 32"
    "length [0xE1, 0x1D :: uint8_t] \<le> 32" "length [0xE1 :: uint8_t] \<le> 32"
    by simp_all
  have b: "(0x1D :: uint8_t) = 0x1D \<or> (0x1D :: uint8_t) = 0x9D"
    "(0x9D :: uint8_t) = 0x1D \<or> (0x9D :: uint8_t) = 0x9D"
    by simp_all
  have irq: "irq_pending (scan_state bs) = []" for bs
    by (simp add: scan_state_def reset_state_def)
  note w1 = pause_break_discarded [OF scan_state_ok(1) [OF len(1)] b(1), of "0x45" "[]" 0]
  note w2 = pause_break_discarded [OF scan_state_ok(1) [OF len(2)] b(2), of "0xC5" "[]" 0]
  note w3 = pause_break_discarded [OF scan_state_ok(1) [OF len(3)] b(1), of "0x45" "[]" 0]
  note w4 = pause_break_discarded [OF scan_state_ok(1) [OF len(4)] b(1), of "0x45" "[]" 0]
  have arriving: "map_option (\<lambda>r. (ps2_scan_code_count (snd r), key_code_count (snd r),
       irq_pending (snd r))) (main_iter 0 pause_state) =
     Some (0, 0, map (\<lambda>e. PCINT0 (fst e) (snd e)) frame_1C)"
    by (simp add: main_iter_def main_pause_break_def ps2_recv_x.simps pause_state_def
        scan_state_def frame_1D_def frame_45_def reset_state_def ps2_recv_def PCINT0_vect_def
        Let_def)
  have "main_iter 0 (scan_state [0xE1, 0x1D, 0x45]) =
     Some (0, snd (ps2_recv (snd (ps2_recv (snd (ps2_recv (scan_state [0xE1, 0x1D, 0x45]))))))) \<and>
   key_queue (snd (ps2_recv (snd (ps2_recv (snd (ps2_recv (scan_state [0xE1, 0x1D, 0x45]))))))) =
     key_queue (scan_state [0xE1, 0x1D, 0x45]) \<and>
   main_iter 0 (scan_state [0xE1, 0x9D, 0xC5]) =
     Some (0, snd (ps2_recv (snd (ps2_recv (snd (ps2_recv (scan_state [0xE1, 0x9D, 0xC5]))))))) \<and>
   main_iter 0 (scan_state [0xE1, 0x1D]) = None \<and>
   main_iter 0 (scan_state [0xE1]) = None"
    using w1 w2 w3 w4 scan_state_ok(2) [OF len(1)] scan_state_ok(2) [OF len(2)]
      scan_state_ok(2) [OF len(3)] scan_state_ok(2) [OF len(4)] irq
    by simp
  with arriving show ?thesis by blast
qed

section \<open>Transmission and the keyboard commands\<close>

lemma ps2_send_loop_cycles:
  "0 \<le> n \<Longrightarrow> clock_cycles (nat (10 - n)) (pinb_polls s) = Some p \<Longrightarrow>
   \<exists>pb. ps2_send_loop byte par n s = Some (s\<lparr>portb := pb, pinb_polls := p\<rparr>)"
proof (induction byte par n s rule: ps2_send_loop.induct)
  case (1 byte par n s)
  show ?case
  proof (cases "n < 10")
    case False
    then have "p = pinb_polls s" using "1.prems" by simp
    then have "ps2_send_loop byte par n s = Some (s\<lparr>portb := portb s, pinb_polls := p\<rparr>)"
      using False by (subst ps2_send_loop.simps) simp
    then show ?thesis by blast
  next
    case True
    then have "nat (10 - n) = Suc (nat (10 - (n + 1)))" using "1.prems"(1) by simp
    then obtain p1 p2 where w1: "wait_while_clock_high (pinb_polls s) = Some p1"
      and w2: "wait_while_clock_low p1 = Some p2"
      and rest: "clock_cycles (nat (10 - (n + 1))) p2 = Some p"
      using "1.prems"(2) by (auto split: option.splits)
    let ?bit = "if n < 8 then byte AND 0x01
                else if n = 8 then word_of_int par AND 0x01 else 1"
    let ?par = "if n < 8 then par + uint (byte AND 0x01) else par"
    let ?s1 = "s\<lparr>portb := (if ?bit \<noteq> 0 then portb s OR PS2_DATA else portb s AND NOT PS2_DATA),
                  pinb_polls := p2\<rparr>"
    have "\<exists>pb. ps2_send_loop (drop_bit 1 byte) ?par (n + 1) ?s1 =
            Some (?s1\<lparr>portb := pb, pinb_polls := p\<rparr>)"
      using "1.IH" [OF True refl refl w1 w2] "1.prems"(1) rest by simp
    then obtain pb where "ps2_send_loop (drop_bit 1 byte) ?par (n + 1) ?s1 =
            Some (s\<lparr>portb := pb, pinb_polls := p\<rparr>)"
      by auto
    then have "ps2_send_loop byte par n s = Some (s\<lparr>portb := pb, pinb_polls := p\<rparr>)"
      using True w1 w2 by (subst ps2_send_loop.simps) (simp add: Let_def)
    then show ?thesis by blast
  qed
qed


lemma ack_sample: "uint ((pinb::uint8_t) AND PS2_DATA) = (if bit pinb 4 then 16 else 0)"
  using and_exp_word [of pinb 4] by simp

text \<open>
  C9. When the keyboard clocks the ten bits out (ten times the clock goes low and high
  again), then pulls the clock low for the acknowledge and releases it, \<open>ps2_send\<close>
  returns to its caller, with interrupts enabled again, and its result is decided by the
  data line (PB4) in the read of \<open>PINB\<close> that follows the falling clock edge: negative
  exactly when the data line is high, 0 exactly when it is low. There are two results,
  0 and \<open>-16\<close> (the value of \<open>-1 * (PINB & PS2_DATA)\<close>).
\<close>

theorem ps2_send_result:
  assumes clocked: "clock_cycles 10 (pinb_polls s) = Some polls1"
    and ack: "wait_while_clock_high polls1 = Some (pinb # polls2)"
    and idle: "wait_while_clock_low polls2 = Some polls3"
  shows "\<exists>r s'. ps2_send byte s = Some (r, s') \<and>
           (r < 0 \<longleftrightarrow> bit pinb 4) \<and> (r = 0 \<longleftrightarrow> \<not> bit pinb 4) \<and>
           r = - uint (pinb AND PS2_DATA) \<and> (r = 0 \<or> r = - 16) \<and>
           pinb_polls s' = polls3 \<and> sreg_i s' \<and> ps2_rx_state s' = PS2_IDLE \<and>
           ps2_queue s' = ps2_queue s \<and> key_queue s' = key_queue s"
proof -
  let ?s7 = "s\<lparr>sreg_i := False, ps2_rx_state := PS2_IDLE, ps2_rx_data_byte := 0,
      ps2_rx_bit_count := 0, ps2_rx_parity := 0,
      ddrb := ((ddrb s OR PS2_CLOCK) OR PS2_DATA) AND NOT PS2_CLOCK,
      portb := ((portb s AND NOT PS2_CLOCK) AND NOT PS2_DATA) OR PS2_CLOCK\<rparr>"
  have "clock_cycles (nat (10 - 0)) (pinb_polls ?s7) = Some polls1"
    using clocked by simp
  from ps2_send_loop_cycles [OF order_refl this, of byte 1]
  obtain pb where loop: "ps2_send_loop byte 1 0 ?s7 = Some (?s7\<lparr>portb := pb, pinb_polls := polls1\<rparr>)"
    by blast
  have "ps2_send byte s =
      Some (- 1 * uint (pinb AND PS2_DATA),
        ?s7\<lparr>portb := pb OR PS2_DATA, ddrb := ddrb ?s7 AND NOT PS2_DATA,
            pinb_polls := polls3, sreg_i := True\<rparr>)"
    using loop ack idle by (simp add: ps2_send_def Let_def)
  then show ?thesis
    by (simp add: ack_sample ps2_queue_def key_queue_def)
qed


lemma clock_cycles_replicate:
  "clock_cycles n (concat (replicate n [0x18, 0x10, 0x00, 0x18]) @ rest) = Some rest"
  by (induction n) simp_all

lemma tx_polls_cycles: "clock_cycles 10 (tx_polls ack) = Some [0x18, 0x00, ack, 0x00, 0x08]"
  unfolding tx_polls_def by (rule clock_cycles_replicate)

theorem ps2_send_result_witness:
  "map_option fst (ps2_send 0xED (reset_state\<lparr>pinb_polls := tx_polls 0x08\<rparr>)) = Some 0 \<and>
   map_option fst (ps2_send 0xED (reset_state\<lparr>pinb_polls := tx_polls 0x18\<rparr>)) = Some (- 16)"
proof -
  have c: "clock_cycles 10 (pinb_polls (reset_state\<lparr>pinb_polls := tx_polls ack\<rparr>)) =
      Some [0x18, 0x00, ack, 0x00, 0x08]" for ack
    by (simp add: tx_polls_cycles)
  have a: "wait_while_clock_high [0x18, 0x00, ack, 0x00, 0x08] = Some (ack # [0x00, 0x08])" for ack
    by simp
  have i: "wait_while_clock_low [0x00, 0x08] = Some []"
    by simp
  from ps2_send_result [OF c [of "0x08"] a [of "0x08"] i, where byte = "0xED"]
  have "map_option fst (ps2_send 0xED (reset_state\<lparr>pinb_polls := tx_polls 0x08\<rparr>)) = Some 0"
    by auto
  moreover from ps2_send_result [OF c [of "0x18"] a [of "0x18"] i, where byte = "0xED"]
  have "map_option fst (ps2_send 0xED (reset_state\<lparr>pinb_polls := tx_polls 0x18\<rparr>)) = Some (- 16)"
    by auto
  ultimately show ?thesis by blast
qed

lemma wait_while_clock_high_shorter:
  "wait_while_clock_high p = Some q \<Longrightarrow> length q < length p"
  by (induction p) (auto split: if_splits)

lemma wait_while_clock_low_shorter:
  "wait_while_clock_low p = Some q \<Longrightarrow> length q < length p"
  by (induction p) (auto split: if_splits)

lemma ps2_send_loop_polls:
  "ps2_send_loop byte par n s = Some s' \<Longrightarrow> length (pinb_polls s') \<le> length (pinb_polls s)"
proof (induction byte par n s rule: ps2_send_loop.induct)
  case (1 byte par n s)
  show ?case
  proof (cases "n < 10")
    case False
    then show ?thesis using "1.prems" by (subst (asm) ps2_send_loop.simps) simp
  next
    case True
    let ?bit = "if n < 8 then byte AND 0x01
                else if n = 8 then word_of_int par AND 0x01 else 1"
    let ?par = "if n < 8 then par + uint (byte AND 0x01) else par"
    from "1.prems" True obtain p1 p2 where w1: "wait_while_clock_high (pinb_polls s) = Some p1"
      and w2: "wait_while_clock_low p1 = Some p2"
      and rest: "ps2_send_loop (drop_bit 1 byte) ?par (n + 1)
          (s\<lparr>portb := (if ?bit \<noteq> 0 then portb s OR PS2_DATA else portb s AND NOT PS2_DATA),
             pinb_polls := p2\<rparr>) = Some s'"
      by (subst (asm) ps2_send_loop.simps) (auto simp add: Let_def split: option.splits)
    have "length (pinb_polls s') \<le> length p2"
      using "1.IH" [OF True refl refl w1 w2 rest] by simp
    then show ?thesis
      using wait_while_clock_high_shorter [OF w1] wait_while_clock_low_shorter [OF w2] by simp
  qed
qed

lemma ps2_send_polls:
  assumes "ps2_send byte s = Some (r, s')"
  shows "length (pinb_polls s') < length (pinb_polls s)"
proof -
  let ?s7 = "s\<lparr>sreg_i := False, ps2_rx_state := PS2_IDLE, ps2_rx_data_byte := 0,
      ps2_rx_bit_count := 0, ps2_rx_parity := 0,
      ddrb := ((ddrb s OR PS2_CLOCK) OR PS2_DATA) AND NOT PS2_CLOCK,
      portb := ((portb s AND NOT PS2_CLOCK) AND NOT PS2_DATA) OR PS2_CLOCK\<rparr>"
  from assms obtain s8 pinb p1 p2 where loop: "ps2_send_loop byte 1 0 ?s7 = Some s8"
    and w1: "wait_while_clock_high (pinb_polls s8) = Some (pinb # p1)"
    and w2: "wait_while_clock_low p1 = Some p2"
    and s': "pinb_polls s' = p2"
    by (auto simp add: ps2_send_def Let_def split: option.splits list.splits)
  have "length (pinb_polls s8) \<le> length (pinb_polls s)"
    using ps2_send_loop_polls [OF loop] by simp
  then show ?thesis
    using wait_while_clock_high_shorter [OF w1] wait_while_clock_low_shorter [OF w2] s'
    by simp
qed

lemma pinb_polls_isr: "pinb_polls (isr e s) = pinb_polls s"
  by (cases e)
    (simp_all add: PCINT0_vect_def USI_OVF_vect_def usi_transfer_def read_key_def Let_def
      split: ps2_state_t.split)

lemma ps2_recv_x_polls:
  "ps2_recv_x s = Some (r, s') \<Longrightarrow> pinb_polls s' = pinb_polls s"
proof (induction s rule: ps2_recv_x.induct)
  case (1 s)
  show ?case
  proof (cases "0 < ps2_scan_code_count s")
    case True
    then show ?thesis
      using "1.prems"
      by (subst (asm) ps2_recv_x.simps) (auto simp add: ps2_recv_def uint_not_minus1 split: if_splits)
  next
    case False
    then have r: "ps2_recv s = (- 1, s)" by (simp add: ps2_recv_empty)
    from "1.prems" obtain e es where irq: "irq_pending s = e # es" and i: "sreg_i s"
      and rest: "ps2_recv_x (isr e (s\<lparr>irq_pending := es\<rparr>)) = Some (r, s')"
      by (subst (asm) ps2_recv_x.simps) (auto simp add: r split: list.splits if_splits)
    have "pinb_polls s' = pinb_polls (isr e (s\<lparr>irq_pending := es\<rparr>))"
      using "1.IH" [OF r [symmetric] refl irq i rest] .
    then show ?thesis by (simp add: pinb_polls_isr)
  qed
qed


lemma kbd_code_set_polls:
  assumes valid: "1 \<le> code_set" "code_set \<le> 3"
    and ret: "kbd_code_set code_set s = Some (r, s')"
  shows "length (pinb_polls s') < length (pinb_polls s)"
proof -
  from ret valid obtain x s1 temp s2 where send1: "ps2_send PS2_HK_ALTCODE s = Some (x, s1)"
    and recv1: "ps2_recv_x s1 = Some (temp, s2)"
    and rest: "(if temp = PS2_KH_ACK then
                  (case ps2_send (word_of_int code_set) s2 of
                     None \<Rightarrow> None
                   | Some (y, s3) \<Rightarrow> ps2_recv_x s3)
                else Some (temp, s2)) = Some (r, s')"
    by (auto simp add: kbd_code_set_def split: option.splits)
  have one: "length (pinb_polls s2) < length (pinb_polls s)"
    using ps2_send_polls [OF send1] ps2_recv_x_polls [OF recv1] by simp
  show ?thesis
  proof (cases "temp = PS2_KH_ACK")
    case False
    then show ?thesis using rest one by simp
  next
    case True
    with rest obtain y s3 where send2: "ps2_send (word_of_int code_set) s2 = Some (y, s3)"
      and recv2: "ps2_recv_x s3 = Some (r, s')"
      by (auto split: option.splits)
    show ?thesis
      using ps2_send_polls [OF send2] ps2_recv_x_polls [OF recv2] one by simp
  qed
qed

text \<open>
  C10. For an argument below 1 or above 3, \<open>kbd_code_set\<close> returns the resend code
  \<open>0xFE\<close> at once and leaves the whole state as it was: nothing is polled or driven on
  the bus and nothing is taken from the scan-code queue. Any other outcome occurs only
  for an argument from 1 to 3, and for those the call never returns that way: it
  performs the exchange, so that when it returns it has polled the bus, and without a
  keyboard to clock the bits it never returns. In \<open>kbd_state\<close> the keyboard answers, and
  \<open>kbd_code_set 1\<close> sends both bytes and returns the acknowledge \<open>0xFA\<close>.
\<close>

theorem kbd_code_set_range:
  "(code_set < 1 \<or> code_set > 3 \<longrightarrow> kbd_code_set code_set s = Some (PS2_KH_RESEND, s)) \<and>
   (kbd_code_set code_set s \<noteq> Some (PS2_KH_RESEND, s) \<longrightarrow> 1 \<le> code_set \<and> code_set \<le> 3) \<and>
   (1 \<le> code_set \<and> code_set \<le> 3 \<longrightarrow> kbd_code_set code_set s \<noteq> Some (PS2_KH_RESEND, s)) \<and>
   (1 \<le> code_set \<and> code_set \<le> 3 \<and> kbd_code_set code_set s = Some (r, s') \<longrightarrow>
      length (pinb_polls s') < length (pinb_polls s)) \<and>
   (1 \<le> code_set \<and> code_set \<le> 3 \<and> pinb_polls s = [] \<longrightarrow> kbd_code_set code_set s = None)"
proof (intro conjI impI)
  assume "code_set < 1 \<or> code_set > 3"
  then show "kbd_code_set code_set s = Some (PS2_KH_RESEND, s)"
    by (simp add: kbd_code_set_def)
next
  assume "kbd_code_set code_set s \<noteq> Some (PS2_KH_RESEND, s)"
  then have "\<not> (code_set < 1 \<or> code_set > 3)"
    by (auto simp add: kbd_code_set_def)
  then show "1 \<le> code_set" and "code_set \<le> 3" by simp_all
next
  assume valid: "1 \<le> code_set \<and> code_set \<le> 3"
  show "kbd_code_set code_set s \<noteq> Some (PS2_KH_RESEND, s)"
  proof
    assume "kbd_code_set code_set s = Some (PS2_KH_RESEND, s)"
    then have "length (pinb_polls s) < length (pinb_polls s)"
      using valid kbd_code_set_polls by blast
    then show False by simp
  qed
next
  assume "1 \<le> code_set \<and> code_set \<le> 3 \<and> kbd_code_set code_set s = Some (r, s')"
  then show "length (pinb_polls s') < length (pinb_polls s)"
    using kbd_code_set_polls by blast
next
  assume a: "1 \<le> code_set \<and> code_set \<le> 3 \<and> pinb_polls s = []"
  show "kbd_code_set code_set s = None"
  proof (cases "kbd_code_set code_set s")
    case None
    then show ?thesis .
  next
    case (Some res)
    then have "length (pinb_polls (snd res)) < length (pinb_polls s)"
      using a kbd_code_set_polls [of code_set s "fst res" "snd res"] by simp
    then show ?thesis using a by simp
  qed
qed

theorem kbd_code_set_range_witness:
  "kbd_code_set 0 reset_state = Some (PS2_KH_RESEND, reset_state) \<and>
   kbd_code_set 4 reset_state = Some (PS2_KH_RESEND, reset_state) \<and>
   kbd_code_set (- 1) (scan_state [0xFA]) = Some (PS2_KH_RESEND, scan_state [0xFA]) \<and>
   kbd_code_set 1 reset_state = None \<and>
   kbd_code_set 1 reset_state \<noteq> Some (PS2_KH_RESEND, reset_state) \<and>
   map_option (\<lambda>r. (fst r, pinb_polls (snd r), irq_pending (snd r)))
     (kbd_code_set 1 kbd_state) = Some (PS2_KH_ACK, [], []) \<and>
   length (pinb_polls (snd (the (kbd_code_set 1 kbd_state)))) < length (pinb_polls kbd_state)"
proof -
  have p: "pinb_polls reset_state = []" by (simp add: reset_state_def)
  have run: "map_option (\<lambda>r. (fst r, pinb_polls (snd r), irq_pending (snd r)))
     (kbd_code_set 1 kbd_state) = Some (PS2_KH_ACK, [], [])"
    by (simp add: kbd_code_set_def ps2_send_def ps2_send_loop.simps ps2_recv_x.simps
        kbd_state_def tx_polls_def replicate_10 frame_FA_def reset_state_def ps2_recv_def
        PCINT0_vect_def Let_def)
  then obtain res where res: "kbd_code_set 1 kbd_state = Some res" by blast
  then have ret: "kbd_code_set 1 kbd_state = Some (fst res, snd res)" by simp
  note a = kbd_code_set_range [of 0 reset_state]
  note b = kbd_code_set_range [of 4 reset_state]
  note c = kbd_code_set_range [of "- 1" "scan_state [0xFA]"]
  note d = kbd_code_set_range [of 1 reset_state]
  note e = kbd_code_set_range [of 1 kbd_state "fst res" "snd res"]
  from e ret have "length (pinb_polls (snd res)) < length (pinb_polls kbd_state)"
    by simp
  then have "length (pinb_polls (snd (the (kbd_code_set 1 kbd_state)))) <
      length (pinb_polls kbd_state)"
    by (simp add: res)
  with a b c d p run show ?thesis by simp
qed

end
